theory Spec2Isabelle
  imports Complex_Main "HOL-Library.List_Lexorder" "HOL-Library.Char_ord" "HOL-Library.Multiset"
begin

section \<open>Data model\<close>

text \<open>
  A decoded record is a \<^verbatim>\<open>std::map<std::string, std::string>\<close> from column name to
  field text; a table is a \<^verbatim>\<open>std::vector\<close> of records. The lookup tables that
  \<^verbatim>\<open>executeQuery5\<close> builds are string-to-string maps that are only searched, indexed and
  assigned, so they are partial functions. A \<^verbatim>\<open>std::map<std::string, double>\<close> is also
  iterated (by the merge and by \<^verbatim>\<open>outputResults\<close>), so it is the list of its entries in
  ascending key order. Revenue is accumulated over exact rationals, not over IEEE doubles.
  Strings compare as \<^verbatim>\<open>std::string\<close> does: lexicographically on the byte values.
\<close>

type_synonym row = "string \<rightharpoonup> string"
type_synonym table = "row list"
type_synonym lookup = "string \<rightharpoonup> string"
type_synonym accum = "(string \<times> rat) list"

text \<open>
  The exceptions and faults of the code: \<^verbatim>\<open>at\<close> on a missing column throws
  \<^verbatim>\<open>std::out_of_range\<close>, \<^verbatim>\<open>std::stod\<close> and \<^verbatim>\<open>std::stoi\<close> throw
  \<^verbatim>\<open>std::invalid_argument\<close> or \<^verbatim>\<open>std::out_of_range\<close>, a vector of negative size
  throws \<^verbatim>\<open>std::length_error\<close>; dividing by a zero thread count and indexing a vector
  out of range are undefined behaviour, kept as faults of their own.
\<close>

datatype error = OutOfRange | InvalidArgument | LengthError | DivisionByZero | IndexOutOfBounds

definition bindE :: "error + 'a \<Rightarrow> ('a \<Rightarrow> error + 'b) \<Rightarrow> error + 'b" where
  "bindE m f = (case m of Inl e \<Rightarrow> Inl e | Inr x \<Rightarrow> f x)"

text \<open>A range-based \<^verbatim>\<open>for\<close> loop whose body may throw: the first exception ends it.\<close>

primrec foldE :: "('a \<Rightarrow> 's \<Rightarrow> error + 's) \<Rightarrow> 'a list \<Rightarrow> 's \<Rightarrow> error + 's" where
  "foldE f [] s = Inr s"
| "foldE f (x # xs) s = bindE (f x s) (foldE f xs)"

text \<open>\<^verbatim>\<open>row.at(column)\<close>\<close>

definition map_at :: "row \<Rightarrow> string \<Rightarrow> error + string" where
  "map_at r k = (case r k of None \<Rightarrow> Inl OutOfRange | Some v \<Rightarrow> Inr v)"

text \<open>\<^verbatim>\<open>lineitem_data[i]\<close>\<close>

definition vec_at :: "'a list \<Rightarrow> nat \<Rightarrow> error + 'a" where
  "vec_at xs i = (if i < length xs then Inr (xs ! i) else Inl IndexOutOfBounds)"

text \<open>
  \<^verbatim>\<open>m[k]\<close> on a string-to-string map: a missing key is inserted with the empty string.
  The value read and the map afterwards.
\<close>

definition map_index :: "lookup \<Rightarrow> string \<Rightarrow> string \<times> lookup" where
  "map_index m k = (case m k of Some v \<Rightarrow> (v, m) | None \<Rightarrow> ('''', m(k \<mapsto> '''')))"

text \<open>\<^verbatim>\<open>m[k] += v\<close> on a string-to-double map: a missing key starts from zero.\<close>

fun accum_add :: "string \<Rightarrow> rat \<Rightarrow> accum \<Rightarrow> accum" where
  "accum_add k v [] = [(k, 0 + v)]"
| "accum_add k v ((k', v') # m) =
     (if k < k' then (k, 0 + v) # (k', v') # m
      else if k = k' then (k', v' + v) # m
      else (k', v') # accum_add k v m)"

section \<open>Dimension filter (steps 1 to 5 of executeQuery5)\<close>

definition region_step :: "string \<Rightarrow> row \<Rightarrow> string list \<Rightarrow> error + string list" where
  "region_step r_name r valid_region_keys =
     bindE (map_at r ''r_name'') (\<lambda>nm.
       if nm = r_name
       then bindE (map_at r ''r_regionkey'') (\<lambda>k. Inr (valid_region_keys @ [k]))
       else Inr valid_region_keys)"

definition nation_key_step :: "row \<Rightarrow> string \<Rightarrow> lookup \<Rightarrow> error + lookup" where
  "nation_key_step n r_key nation_key_to_name =
     bindE (map_at n ''n_regionkey'') (\<lambda>rk.
       if rk = r_key
       then bindE (map_at n ''n_name'') (\<lambda>nm.
            bindE (map_at n ''n_nationkey'') (\<lambda>k. Inr (nation_key_to_name(k \<mapsto> nm))))
       else Inr nation_key_to_name)"

definition nation_step :: "string list \<Rightarrow> row \<Rightarrow> lookup \<Rightarrow> error + lookup" where
  "nation_step valid_region_keys n nation_key_to_name =
     foldE (nation_key_step n) valid_region_keys nation_key_to_name"

definition customer_step :: "lookup \<Rightarrow> row \<Rightarrow> lookup \<Rightarrow> error + lookup" where
  "customer_step nation_key_to_name c valid_customers =
     bindE (map_at c ''c_nationkey'') (\<lambda>nk.
       if nation_key_to_name nk \<noteq> None
       then bindE (map_at c ''c_nationkey'') (\<lambda>v.
            bindE (map_at c ''c_custkey'') (\<lambda>k. Inr (valid_customers(k \<mapsto> v))))
       else Inr valid_customers)"

definition supplier_step :: "lookup \<Rightarrow> row \<Rightarrow> lookup \<Rightarrow> error + lookup" where
  "supplier_step nation_key_to_name s valid_suppliers =
     bindE (map_at s ''s_nationkey'') (\<lambda>nk.
       if nation_key_to_name nk \<noteq> None
       then bindE (map_at s ''s_nationkey'') (\<lambda>v.
            bindE (map_at s ''s_suppkey'') (\<lambda>k. Inr (valid_suppliers(k \<mapsto> v))))
       else Inr valid_suppliers)"

definition order_step :: "string \<Rightarrow> string \<Rightarrow> lookup \<Rightarrow> row \<Rightarrow> lookup \<Rightarrow> error + lookup" where
  "order_step start_date end_date valid_customers ord valid_orders =
     bindE (map_at ord ''o_orderdate'') (\<lambda>o_date.
       if o_date \<ge> start_date \<and> o_date < end_date
       then bindE (map_at ord ''o_custkey'') (\<lambda>c_key.
              if valid_customers c_key \<noteq> None
              then bindE (map_at ord ''o_orderkey'') (\<lambda>k. Inr (valid_orders(k \<mapsto> c_key)))
              else Inr valid_orders)
       else Inr valid_orders)"

section \<open>Parallel join-aggregate engine (step 6 and the merge)\<close>

text \<open>
  What the worker lambda reaches by reference and can write: \<^verbatim>\<open>valid_customers\<close> and
  \<^verbatim>\<open>nation_key_to_name\<close> (through \<^verbatim>\<open>operator[]\<close>) and the vector
  \<^verbatim>\<open>thread_results\<close>. The workers are run one after the other in thread-id order.
\<close>

record worker_state =
  w_valid_customers :: lookup
  w_nation_key_to_name :: lookup
  w_thread_results :: "accum list"

definition process_item ::
  "(string \<Rightarrow> error + rat) \<Rightarrow> lookup \<Rightarrow> lookup \<Rightarrow> nat \<Rightarrow> row \<Rightarrow> worker_state \<Rightarrow> error + worker_state" where
  "process_item stod valid_orders valid_suppliers thread_id item st =
     bindE (map_at item ''l_orderkey'') (\<lambda>o_key.
     bindE (map_at item ''l_suppkey'') (\<lambda>s_key.
       case valid_orders o_key of
         None \<Rightarrow> Inr st
       | Some c_key \<Rightarrow>
          (case valid_suppliers s_key of
             None \<Rightarrow> Inr st
           | Some s_nation \<Rightarrow>
              (case map_index (w_valid_customers st) c_key of (c_nation, vc) \<Rightarrow>
                 if c_nation = s_nation
                 then bindE (bindE (map_at item ''l_extendedprice'') stod) (\<lambda>price.
                      bindE (bindE (map_at item ''l_discount'') stod) (\<lambda>discount.
                        case map_index (w_nation_key_to_name st) s_nation of (n_name, nk) \<Rightarrow>
                          if thread_id < length (w_thread_results st)
                          then Inr (st\<lparr>w_valid_customers := vc, w_nation_key_to_name := nk,
                                 w_thread_results := (w_thread_results st)
                                   [thread_id := accum_add n_name (price * (1 - discount))
                                                   (w_thread_results st ! thread_id)]\<rparr>)
                          else Inl IndexOutOfBounds))
                 else Inr (st\<lparr>w_valid_customers := vc\<rparr>)))))"

definition worker ::
  "(string \<Rightarrow> error + rat) \<Rightarrow> lookup \<Rightarrow> lookup \<Rightarrow> table \<Rightarrow> nat \<Rightarrow> nat \<Rightarrow> nat \<Rightarrow> worker_state
     \<Rightarrow> error + worker_state" where
  "worker stod valid_orders valid_suppliers lineitem_data thread_id start_idx end_idx st =
     foldE (\<lambda>i s. bindE (vec_at lineitem_data i)
                     (\<lambda>item. process_item stod valid_orders valid_suppliers thread_id item s))
       [start_idx..<end_idx] st"

text \<open>
  The index range of thread \<open>i\<close>. Every product is at most \<open>total_items\<close> (lemma
  \<open>chunk_bounds_le\<close>), so the \<^verbatim>\<open>size_t\<close> arithmetic of the code does not wrap.
\<close>

definition chunk_bounds :: "nat \<Rightarrow> nat \<Rightarrow> nat \<Rightarrow> nat \<times> nat" where
  "chunk_bounds total_items num_threads i =
     (let chunk_size = total_items div num_threads
      in (i * chunk_size,
          if i = num_threads - 1 then total_items else (i + 1) * chunk_size))"

definition run_threads ::
  "(string \<Rightarrow> error + rat) \<Rightarrow> lookup \<Rightarrow> lookup \<Rightarrow> table \<Rightarrow> nat \<Rightarrow> worker_state \<Rightarrow> error + worker_state" where
  "run_threads stod valid_orders valid_suppliers lineitem_data num_threads st =
     foldE (\<lambda>i s. case chunk_bounds (length lineitem_data) num_threads i of (start_idx, end_idx) \<Rightarrow>
                     worker stod valid_orders valid_suppliers lineitem_data i start_idx end_idx s)
       [0..<num_threads] st"

definition merge_results :: "accum list \<Rightarrow> accum \<Rightarrow> accum" where
  "merge_results thread_results results =
     fold (\<lambda>partial_map res. fold (\<lambda>pair r. accum_add (fst pair) (snd pair) r) partial_map res)
       thread_results results"

definition executeQuery5 ::
  "(string \<Rightarrow> error + rat) \<Rightarrow> string \<Rightarrow> string \<Rightarrow> string \<Rightarrow> int \<Rightarrow>
     table \<Rightarrow> table \<Rightarrow> table \<Rightarrow> table \<Rightarrow> table \<Rightarrow> table \<Rightarrow> accum \<Rightarrow> error + (bool \<times> accum)" where
  "executeQuery5 stod r_name start_date end_date num_threads
       customer_data orders_data lineitem_data supplier_data nation_data region_data results =
     bindE (foldE (region_step r_name) region_data []) (\<lambda>valid_region_keys.
     bindE (foldE (nation_step valid_region_keys) nation_data Map.empty) (\<lambda>nation_key_to_name.
     bindE (foldE (customer_step nation_key_to_name) customer_data Map.empty) (\<lambda>valid_customers.
     bindE (foldE (supplier_step nation_key_to_name) supplier_data Map.empty) (\<lambda>valid_suppliers.
     bindE (foldE (order_step start_date end_date valid_customers) orders_data Map.empty) (\<lambda>valid_orders.
       if num_threads < 0 then Inl LengthError
       else if num_threads = 0 then Inl DivisionByZero
       else bindE (run_threads stod valid_orders valid_suppliers lineitem_data (nat num_threads)
                     \<lparr>w_valid_customers = valid_customers,
                      w_nation_key_to_name = nation_key_to_name,
                      w_thread_results = replicate (nat num_threads) []\<rparr>)
              (\<lambda>st. Inr (True, merge_results (w_thread_results st) results)))))))"

section \<open>Result ranker (outputResults)\<close>

text \<open>
  \<^verbatim>\<open>std::sort\<close> is a parameter \<open>srt\<close>; \<open>std_sort_contract\<close> is what the C++ standard
  promises of it for a comparator that is a strict weak ordering: the result is a
  permutation of the input in which no later element compares before an earlier one. The
  order of elements that compare equal is left open. \<open>fmt\<close> is the fixed four-decimal
  formatting of the stream, \<open>is_open\<close> whether the output file could be opened.
\<close>

type_synonym sorter =
  "(string \<times> rat \<Rightarrow> string \<times> rat \<Rightarrow> bool) \<Rightarrow> (string \<times> rat) list \<Rightarrow> (string \<times> rat) list"

definition strict_weak_order :: "('a \<Rightarrow> 'a \<Rightarrow> bool) \<Rightarrow> bool" where
  "strict_weak_order cmp =
     ((\<forall>a. \<not> cmp a a)
      \<and> (\<forall>a b c. cmp a b \<and> cmp b c \<longrightarrow> cmp a c)
      \<and> (\<forall>a b c. \<not> cmp a b \<and> \<not> cmp b a \<and> \<not> cmp b c \<and> \<not> cmp c b \<longrightarrow> \<not> cmp a c \<and> \<not> cmp c a))"

definition std_sort_contract :: "sorter \<Rightarrow> bool" where
  "std_sort_contract srt =
     (\<forall>cmp xs. strict_weak_order cmp \<longrightarrow>
        mset (srt cmp xs) = mset xs \<and> sorted_wrt (\<lambda>a b. \<not> cmp b a) (srt cmp xs))"

text \<open>The comparator lambda of \<^verbatim>\<open>outputResults\<close>.\<close>

definition revenue_desc :: "string \<times> rat \<Rightarrow> string \<times> rat \<Rightarrow> bool" where
  "revenue_desc a b = (snd a > snd b)"

text \<open>
  The objects \<^verbatim>\<open>outputResults\<close> works on: the map it is given by const reference, its
  local vector \<^verbatim>\<open>sorted_results\<close> and the lines written to the file.
\<close>

record ranker_state =
  rk_results :: accum
  rk_sorted_results :: "(string \<times> rat) list"
  rk_outfile :: "string list"

definition outputResults :: "sorter \<Rightarrow> (rat \<Rightarrow> string) \<Rightarrow> bool \<Rightarrow> accum \<Rightarrow> bool \<times> ranker_state" where
  "outputResults srt fmt is_open results =
     (let st0 = \<lparr>rk_results = results, rk_sorted_results = [], rk_outfile = []\<rparr>
      in if \<not> is_open then (False, st0)
         else let st1 = st0\<lparr>rk_sorted_results := rk_results st0\<rparr>;
                  st2 = st1\<lparr>rk_sorted_results := srt revenue_desc (rk_sorted_results st1)\<rparr>;
                  st3 = st2\<lparr>rk_outfile := map (\<lambda>pair. fst pair @ ''|'' @ fmt (snd pair))
                                              (rk_sorted_results st2)\<rparr>
              in (True, st3))"

text \<open>An insertion sort, one function that meets \<open>std_sort_contract\<close>.\<close>

fun insert_by :: "('a \<Rightarrow> 'a \<Rightarrow> bool) \<Rightarrow> 'a \<Rightarrow> 'a list \<Rightarrow> 'a list" where
  "insert_by cmp x [] = [x]"
| "insert_by cmp x (y # ys) = (if cmp x y then x # y # ys else y # insert_by cmp x ys)"

definition insertion_sort :: "('a \<Rightarrow> 'a \<Rightarrow> bool) \<Rightarrow> 'a list \<Rightarrow> 'a list" where
  "insertion_sort cmp xs = foldr (insert_by cmp) xs []"

section \<open>The objects of one query run\<close>

text \<open>
  \<^verbatim>\<open>executeQuery5\<close> takes the six tables by const reference and the result map by reference:
  of the caller's objects it can write the result map only.
\<close>

record query_state =
  q_customer_data :: table
  q_orders_data :: table
  q_lineitem_data :: table
  q_supplier_data :: table
  q_nation_data :: table
  q_region_data :: table
  q_results :: accum

definition executeQuery5_on ::
  "(string \<Rightarrow> error + rat) \<Rightarrow> string \<Rightarrow> string \<Rightarrow> string \<Rightarrow> int \<Rightarrow> query_state
     \<Rightarrow> error + (bool \<times> query_state)" where
  "executeQuery5_on stod r_name start_date end_date num_threads st =
     bindE (executeQuery5 stod r_name start_date end_date num_threads
              (q_customer_data st) (q_orders_data st) (q_lineitem_data st)
              (q_supplier_data st) (q_nation_data st) (q_region_data st) (q_results st))
       (\<lambda>r. Inr (fst r, st\<lparr>q_results := snd r\<rparr>))"

section \<open>Configuration (parseArgs)\<close>

text \<open>
  The six variables \<^verbatim>\<open>parseArgs\<close> receives by reference. \<^verbatim>\<open>std::stoi\<close> is a parameter
  \<open>stoi\<close>. The loop reads \<^verbatim>\<open>argv\<close> from index 1: a flag that has a following argument
  consumes it, a last argument with nothing after it is skipped, and any other argument is
  stepped over alone.
\<close>

record config =
  cfg_r_name :: string
  cfg_start_date :: string
  cfg_end_date :: string
  cfg_num_threads :: int
  cfg_table_path :: string
  cfg_result_path :: string

fun parse_loop :: "(string \<Rightarrow> error + int) \<Rightarrow> string list \<Rightarrow> config \<Rightarrow> error + config" where
  "parse_loop stoi [] cfg = Inr cfg"
| "parse_loop stoi [arg] cfg = Inr cfg"
| "parse_loop stoi (arg # v # rest) cfg =
     (if arg = ''--r_name'' then parse_loop stoi rest (cfg\<lparr>cfg_r_name := v\<rparr>)
      else if arg = ''--start_date'' then parse_loop stoi rest (cfg\<lparr>cfg_start_date := v\<rparr>)
      else if arg = ''--end_date'' then parse_loop stoi rest (cfg\<lparr>cfg_end_date := v\<rparr>)
      else if arg = ''--threads''
           then bindE (stoi v) (\<lambda>n. parse_loop stoi rest (cfg\<lparr>cfg_num_threads := n\<rparr>))
      else if arg = ''--table_path'' then parse_loop stoi rest (cfg\<lparr>cfg_table_path := v\<rparr>)
      else if arg = ''--result_path'' then parse_loop stoi rest (cfg\<lparr>cfg_result_path := v\<rparr>)
      else parse_loop stoi (v # rest) cfg)"

text \<open>Decimal digits and the number a run of them denotes.\<close>

definition is_digit :: "char \<Rightarrow> bool" where
  "is_digit c = (CHR ''0'' \<le> c \<and> c \<le> CHR ''9'')"

definition digits_value :: "string \<Rightarrow> nat" where
  "digits_value ds = foldl (\<lambda>a c. 10 * a + (of_char c - 48)) 0 ds"

text \<open>
  A reader of decimal integers in the manner of \<^verbatim>\<open>std::stoi\<close>: leading white space, an
  optional sign, then digits; what follows the digits is ignored. No digit is
  \<^verbatim>\<open>std::invalid_argument\<close>, a value outside the 32-bit range is \<^verbatim>\<open>std::out_of_range\<close>.
\<close>

definition is_space :: "char \<Rightarrow> bool" where
  "is_space c = (c = CHR '' '' \<or> (9 \<le> (of_char c :: nat) \<and> (of_char c :: nat) \<le> 13))"

definition stoi_decimal :: "string \<Rightarrow> error + int" where
  "stoi_decimal s =
     (let t = dropWhile is_space s;
          neg = (t \<noteq> [] \<and> hd t = CHR ''-'');
          u = (if t \<noteq> [] \<and> (hd t = CHR ''-'' \<or> hd t = CHR ''+'') then tl t else t);
          ds = takeWhile is_digit u;
          v = (if neg then - int (digits_value ds) else int (digits_value ds))
      in if ds = [] then Inl InvalidArgument
         else if v < - 2147483648 \<or> 2147483647 < v then Inl OutOfRange
         else Inr v)"

definition incomplete :: "config \<Rightarrow> bool" where
  "incomplete cfg =
     (cfg_r_name cfg = [] \<or> cfg_start_date cfg = [] \<or> cfg_end_date cfg = []
      \<or> cfg_table_path cfg = [] \<or> cfg_result_path cfg = [] \<or> cfg_num_threads cfg \<le> 0)"

definition parseArgs :: "(string \<Rightarrow> error + int) \<Rightarrow> string list \<Rightarrow> config \<Rightarrow> error + (bool \<times> config)" where
  "parseArgs stoi argv cfg =
     bindE (parse_loop stoi (drop 1 argv) cfg) (\<lambda>cfg'.
       if incomplete cfg' then Inr (False, cfg') else Inr (True, cfg'))"

section \<open>Specification vocabulary\<close>

text \<open>
  The text of a column (empty when the record lacks it), tables whose records carry given
  columns, and tables in which a column is a key. The body of each of the loops 3 to 5 is
  a guarded assignment \<^verbatim>\<open>m[key] = value\<close>.
\<close>

definition col :: "row \<Rightarrow> string \<Rightarrow> string" where
  "col r c = (case r c of Some v \<Rightarrow> v | None \<Rightarrow> [])"

definition has_columns :: "string list \<Rightarrow> table \<Rightarrow> bool" where
  "has_columns cols t = (\<forall>r\<in>set t. \<forall>c\<in>set cols. r c \<noteq> None)"

definition unique_key :: "string \<Rightarrow> table \<Rightarrow> bool" where
  "unique_key k t = distinct (map (\<lambda>r. col r k) t)"

definition cond_insert :: "(row \<Rightarrow> bool) \<Rightarrow> string \<Rightarrow> string \<Rightarrow> row \<Rightarrow> lookup \<Rightarrow> lookup" where
  "cond_insert P key val r m = (if P r then m(col r key \<mapsto> col r val) else m)"

definition order_selected :: "string \<Rightarrow> string \<Rightarrow> lookup \<Rightarrow> row \<Rightarrow> bool" where
  "order_selected start_date end_date valid_customers ord =
     (col ord ''o_orderdate'' \<ge> start_date \<and> col ord ''o_orderdate'' < end_date
      \<and> col ord ''o_custkey'' \<in> dom valid_customers)"

text \<open>
  The two stages of \<^verbatim>\<open>executeQuery5\<close> on their own: steps 1 to 5 build the four lookup
  tables, step 6 and the merge consume them (lemma \<open>executeQuery5_split\<close>).
\<close>

definition dimension_filter ::
  "string \<Rightarrow> string \<Rightarrow> string \<Rightarrow> table \<Rightarrow> table \<Rightarrow> table \<Rightarrow> table \<Rightarrow> table
     \<Rightarrow> error + (lookup \<times> lookup \<times> lookup \<times> lookup)" where
  "dimension_filter r_name start_date end_date customer_data orders_data supplier_data
       nation_data region_data =
     bindE (foldE (region_step r_name) region_data []) (\<lambda>valid_region_keys.
     bindE (foldE (nation_step valid_region_keys) nation_data Map.empty) (\<lambda>nation_key_to_name.
     bindE (foldE (customer_step nation_key_to_name) customer_data Map.empty) (\<lambda>valid_customers.
     bindE (foldE (supplier_step nation_key_to_name) supplier_data Map.empty) (\<lambda>valid_suppliers.
     bindE (foldE (order_step start_date end_date valid_customers) orders_data Map.empty) (\<lambda>valid_orders.
       Inr (nation_key_to_name, valid_customers, valid_suppliers, valid_orders))))))"

definition join_aggregate ::
  "(string \<Rightarrow> error + rat) \<Rightarrow> int \<Rightarrow> table \<Rightarrow> accum \<Rightarrow> lookup \<times> lookup \<times> lookup \<times> lookup
     \<Rightarrow> error + (bool \<times> accum)" where
  "join_aggregate stod num_threads lineitem_data results maps =
     (case maps of (nation_key_to_name, valid_customers, valid_suppliers, valid_orders) \<Rightarrow>
       if num_threads < 0 then Inl LengthError
       else if num_threads = 0 then Inl DivisionByZero
       else bindE (run_threads stod valid_orders valid_suppliers lineitem_data (nat num_threads)
                     \<lparr>w_valid_customers = valid_customers,
                      w_nation_key_to_name = nation_key_to_name,
                      w_thread_results = replicate (nat num_threads) []\<rparr>)
              (\<lambda>st. Inr (True, merge_results (w_thread_results st) results)))"

text \<open>
  Every customer key stored in \<open>valid_orders\<close> is a key of \<open>valid_customers\<close>, and every nation
  key stored in \<open>valid_suppliers\<close> or \<open>valid_customers\<close> is a key of \<open>nation_key_to_name\<close>.
\<close>

definition lookups_closed :: "lookup \<Rightarrow> lookup \<Rightarrow> lookup \<Rightarrow> lookup \<Rightarrow> bool" where
  "lookups_closed nation_key_to_name valid_customers valid_suppliers valid_orders =
     ((\<forall>o_key c_key. valid_orders o_key = Some c_key \<longrightarrow> valid_customers c_key \<noteq> None)
      \<and> (\<forall>s_key s_nation. valid_suppliers s_key = Some s_nation
             \<longrightarrow> nation_key_to_name s_nation \<noteq> None)
      \<and> (\<forall>c_key c_nation. valid_customers c_key = Some c_nation
             \<longrightarrow> nation_key_to_name c_nation \<noteq> None))"

definition maps_into :: "lookup \<Rightarrow> lookup \<Rightarrow> bool" where
  "maps_into m d = (\<forall>k v. m k = Some v \<longrightarrow> d v \<noteq> None)"

text \<open>
  What one line item adds, read off the body of the worker loop: nothing when a lookup
  misses or the nations differ, else the nation name and \<open>price * (1 - discount)\<close>.
\<close>

definition item_revenue ::
  "(string \<Rightarrow> error + rat) \<Rightarrow> lookup \<Rightarrow> lookup \<Rightarrow> lookup \<Rightarrow> lookup \<Rightarrow> row
     \<Rightarrow> error + (string \<times> rat) option" where
  "item_revenue stod nation_key_to_name valid_customers valid_suppliers valid_orders item =
     bindE (map_at item ''l_orderkey'') (\<lambda>o_key.
     bindE (map_at item ''l_suppkey'') (\<lambda>s_key.
       case valid_orders o_key of
         None \<Rightarrow> Inr None
       | Some c_key \<Rightarrow>
          (case valid_suppliers s_key of
             None \<Rightarrow> Inr None
           | Some s_nation \<Rightarrow>
               if fst (map_index valid_customers c_key) = s_nation
               then bindE (bindE (map_at item ''l_extendedprice'') stod) (\<lambda>price.
                    bindE (bindE (map_at item ''l_discount'') stod) (\<lambda>discount.
                      Inr (Some (fst (map_index nation_key_to_name s_nation),
                                 price * (1 - discount)))))
               else Inr None)))"

definition add_contribution :: "(string \<times> rat) option \<Rightarrow> accum \<Rightarrow> accum" where
  "add_contribution r a = (case r of None \<Rightarrow> a | Some (n, v) \<Rightarrow> accum_add n v a)"

primrec mapE :: "('a \<Rightarrow> error + 'b) \<Rightarrow> 'a list \<Rightarrow> error + 'b list" where
  "mapE f [] = Inr []"
| "mapE f (x # xs) = bindE (f x) (\<lambda>y. bindE (mapE f xs) (\<lambda>ys. Inr (y # ys)))"

text \<open>
  A \<^verbatim>\<open>std::map\<close> holds its keys in strictly ascending order; the value under a key, zero
  when the key is absent; the sum of the contributions made to one name.
\<close>

definition is_std_map :: "accum \<Rightarrow> bool" where
  "is_std_map m = sorted_wrt (<) (map fst m)"

definition total :: "accum \<Rightarrow> string \<Rightarrow> rat" where
  "total m k = (case map_of m k of None \<Rightarrow> 0 | Some v \<Rightarrow> v)"

definition contrib_sum :: "(string \<times> rat) option list \<Rightarrow> string \<Rightarrow> rat" where
  "contrib_sum rs k = (\<Sum>r\<leftarrow>rs. case r of None \<Rightarrow> 0 | Some (n, v) \<Rightarrow> if n = k then v else 0)"

definition contrib_names :: "(string \<times> rat) option list \<Rightarrow> string set" where
  "contrib_names rs = {n. \<exists>v. Some (n, v) \<in> set rs}"

text \<open>
  Over the vector of per-thread maps: the sum of the values held under a name, and the
  names held at all. \<open>adds rs st st'\<close>: the state \<open>st'\<close> is \<open>st\<close> with the contributions
  \<open>rs\<close> accumulated into some of the per-thread maps, the lookup tables untouched.
\<close>

definition grand_total :: "accum list \<Rightarrow> string \<Rightarrow> rat" where
  "grand_total trs k = (\<Sum>p\<leftarrow>trs. total p k)"

definition all_keys :: "accum list \<Rightarrow> string set" where
  "all_keys trs = (\<Union>p\<in>set trs. fst ` set p)"

definition adds :: "(string \<times> rat) option list \<Rightarrow> worker_state \<Rightarrow> worker_state \<Rightarrow> bool" where
  "adds rs st st' =
     (w_valid_customers st' = w_valid_customers st
      \<and> w_nation_key_to_name st' = w_nation_key_to_name st
      \<and> length (w_thread_results st') = length (w_thread_results st)
      \<and> (\<forall>p\<in>set (w_thread_results st'). is_std_map p)
      \<and> (\<forall>k. grand_total (w_thread_results st') k
               = grand_total (w_thread_results st) k + contrib_sum rs k)
      \<and> all_keys (w_thread_results st') = all_keys (w_thread_results st) \<union> contrib_names rs)"

text \<open>
  The pairs (thread id, line-item index) in the order in which the threads, taken one after
  the other, reach them; and the body of the worker loop at one such pair.
\<close>

definition thread_items :: "nat \<Rightarrow> nat \<Rightarrow> (nat \<times> nat) list" where
  "thread_items total_items num_threads =
     concat (map (\<lambda>i. map (Pair i) [fst (chunk_bounds total_items num_threads i)..<
                                     snd (chunk_bounds total_items num_threads i)])
               [0..<num_threads])"

definition worker_body ::
  "(string \<Rightarrow> error + rat) \<Rightarrow> lookup \<Rightarrow> lookup \<Rightarrow> table \<Rightarrow> nat \<times> nat \<Rightarrow> worker_state
     \<Rightarrow> error + worker_state" where
  "worker_body stod valid_orders valid_suppliers lineitem_data p s =
     bindE (vec_at lineitem_data (snd p))
       (\<lambda>item. process_item stod valid_orders valid_suppliers (fst p) item s)"

section \<open>The query, as the specification words it\<close>

text \<open>
  The six tables carry the columns the query reads. A line item qualifies for a nation name
  when it belongs to an order dated in \<open>[start_date, end_date)\<close>, the customer of that order
  and the supplier of the line item have the same nation key, that nation lies in a region
  named \<open>r_name\<close>, and the nation has that name. Its revenue is
  \<open>extended_price * (1 - discount)\<close>, each field read by \<open>stod\<close>.
\<close>

definition well_formed :: "table \<Rightarrow> table \<Rightarrow> table \<Rightarrow> table \<Rightarrow> table \<Rightarrow> table \<Rightarrow> bool" where
  "well_formed customer_data orders_data lineitem_data supplier_data nation_data region_data =
     (has_columns [''c_custkey'', ''c_nationkey''] customer_data
      \<and> has_columns [''o_orderkey'', ''o_custkey'', ''o_orderdate''] orders_data
      \<and> has_columns [''l_orderkey'', ''l_suppkey'', ''l_extendedprice'', ''l_discount''] lineitem_data
      \<and> has_columns [''s_suppkey'', ''s_nationkey''] supplier_data
      \<and> has_columns [''n_nationkey'', ''n_name'', ''n_regionkey''] nation_data
      \<and> has_columns [''r_regionkey'', ''r_name''] region_data)"

definition qualifies ::
  "string \<Rightarrow> string \<Rightarrow> string \<Rightarrow> table \<Rightarrow> table \<Rightarrow> table \<Rightarrow> table \<Rightarrow> table \<Rightarrow> row \<Rightarrow> string
     \<Rightarrow> bool" where
  "qualifies r_name start_date end_date customer_data orders_data supplier_data nation_data
       region_data item n_name =
     (\<exists>ord\<in>set orders_data. \<exists>c\<in>set customer_data. \<exists>s\<in>set supplier_data.
      \<exists>n\<in>set nation_data. \<exists>r\<in>set region_data.
        col ord ''o_orderkey'' = col item ''l_orderkey''
        \<and> col ord ''o_orderdate'' \<ge> start_date \<and> col ord ''o_orderdate'' < end_date
        \<and> col c ''c_custkey'' = col ord ''o_custkey''
        \<and> col s ''s_suppkey'' = col item ''l_suppkey''
        \<and> col c ''c_nationkey'' = col s ''s_nationkey''
        \<and> col n ''n_nationkey'' = col s ''s_nationkey''
        \<and> col r ''r_regionkey'' = col n ''n_regionkey''
        \<and> col r ''r_name'' = r_name
        \<and> col n ''n_name'' = n_name)"

definition parses :: "(string \<Rightarrow> error + rat) \<Rightarrow> row \<Rightarrow> bool" where
  "parses stod item =
     ((\<exists>price. stod (col item ''l_extendedprice'') = Inr price)
      \<and> (\<exists>discount. stod (col item ''l_discount'') = Inr discount))"

definition num :: "(string \<Rightarrow> error + rat) \<Rightarrow> string \<Rightarrow> rat" where
  "num stod s = (case stod s of Inl e \<Rightarrow> 0 | Inr x \<Rightarrow> x)"

definition revenue :: "(string \<Rightarrow> error + rat) \<Rightarrow> row \<Rightarrow> rat" where
  "revenue stod item =
     num stod (col item ''l_extendedprice'') * (1 - num stod (col item ''l_discount''))"

text \<open>The derived mappings of the specification, each a filter of its base table.\<close>

definition valid_region_key_list :: "string \<Rightarrow> table \<Rightarrow> string list" where
  "valid_region_key_list r_name region_data =
     map (\<lambda>r. col r ''r_regionkey'') (filter (\<lambda>r. col r ''r_name'' = r_name) region_data)"

definition nation_name_by_key :: "string \<Rightarrow> table \<Rightarrow> table \<Rightarrow> lookup" where
  "nation_name_by_key r_name nation_data region_data =
     fold (cond_insert (\<lambda>n. col n ''n_regionkey'' \<in> set (valid_region_key_list r_name region_data))
             ''n_nationkey'' ''n_name'') nation_data Map.empty"

definition cust_nation_by_key :: "lookup \<Rightarrow> table \<Rightarrow> lookup" where
  "cust_nation_by_key nation_key_to_name customer_data =
     fold (cond_insert (\<lambda>c. col c ''c_nationkey'' \<in> dom nation_key_to_name)
             ''c_custkey'' ''c_nationkey'') customer_data Map.empty"

definition supp_nation_by_key :: "lookup \<Rightarrow> table \<Rightarrow> lookup" where
  "supp_nation_by_key nation_key_to_name supplier_data =
     fold (cond_insert (\<lambda>s. col s ''s_nationkey'' \<in> dom nation_key_to_name)
             ''s_suppkey'' ''s_nationkey'') supplier_data Map.empty"

definition order_cust_by_key :: "string \<Rightarrow> string \<Rightarrow> lookup \<Rightarrow> table \<Rightarrow> lookup" where
  "order_cust_by_key start_date end_date valid_customers orders_data =
     fold (cond_insert (order_selected start_date end_date valid_customers)
             ''o_orderkey'' ''o_custkey'') orders_data Map.empty"

section \<open>A worked data set\<close>

text \<open>
  A reader of unsigned decimal literals (digits, optionally a point and more digits), one
  function that can stand for \<^verbatim>\<open>std::stod\<close>; it rejects a text that starts with no digit.
\<close>

definition stod_decimal :: "string \<Rightarrow> error + rat" where
  "stod_decimal s =
     (let ip = takeWhile is_digit s;
          rest = dropWhile is_digit s;
          fp = (case rest of [] \<Rightarrow> [] | c # r \<Rightarrow> if c = CHR ''.'' then takeWhile is_digit r else [])
      in if ip = [] \<and> fp = [] then Inl InvalidArgument
         else Inr (of_nat (digits_value ip) + of_nat (digits_value fp) / 10 ^ length fp))"

text \<open>
  Nations A, B and C lie in region TEST, nation D in region OTHER. Orders 101 to 103 are
  placed in 1994 by customers of A, B and C; order 104 is placed on 1995-01-01 and order
  105 by a customer of D. The line items: one per nation A, B, C with revenues 50, 200 and
  10, one on the order outside the window, and one whose supplier is of another nation
  than the customer.
\<close>

definition ex_regions :: table where
  "ex_regions = [[''r_regionkey'' \<mapsto> ''1'', ''r_name'' \<mapsto> ''TEST''],
                 [''r_regionkey'' \<mapsto> ''2'', ''r_name'' \<mapsto> ''OTHER'']]"

definition ex_nations :: table where
  "ex_nations = [[''n_nationkey'' \<mapsto> ''1'', ''n_name'' \<mapsto> ''A'', ''n_regionkey'' \<mapsto> ''1''],
                 [''n_nationkey'' \<mapsto> ''2'', ''n_name'' \<mapsto> ''B'', ''n_regionkey'' \<mapsto> ''1''],
                 [''n_nationkey'' \<mapsto> ''3'', ''n_name'' \<mapsto> ''C'', ''n_regionkey'' \<mapsto> ''1''],
                 [''n_nationkey'' \<mapsto> ''4'', ''n_name'' \<mapsto> ''D'', ''n_regionkey'' \<mapsto> ''2'']]"

definition ex_customers :: table where
  "ex_customers = [[''c_custkey'' \<mapsto> ''11'', ''c_nationkey'' \<mapsto> ''1''],
                   [''c_custkey'' \<mapsto> ''12'', ''c_nationkey'' \<mapsto> ''2''],
                   [''c_custkey'' \<mapsto> ''13'', ''c_nationkey'' \<mapsto> ''3''],
                   [''c_custkey'' \<mapsto> ''14'', ''c_nationkey'' \<mapsto> ''4'']]"

definition ex_suppliers :: table where
  "ex_suppliers = [[''s_suppkey'' \<mapsto> ''21'', ''s_nationkey'' \<mapsto> ''1''],
                   [''s_suppkey'' \<mapsto> ''22'', ''s_nationkey'' \<mapsto> ''2''],
                   [''s_suppkey'' \<mapsto> ''23'', ''s_nationkey'' \<mapsto> ''3''],
                   [''s_suppkey'' \<mapsto> ''24'', ''s_nationkey'' \<mapsto> ''4'']]"

definition ex_orders :: table where
  "ex_orders =
     [[''o_orderkey'' \<mapsto> ''101'', ''o_custkey'' \<mapsto> ''11'', ''o_orderdate'' \<mapsto> ''1994-02-01''],
      [''o_orderkey'' \<mapsto> ''102'', ''o_custkey'' \<mapsto> ''12'', ''o_orderdate'' \<mapsto> ''1994-03-01''],
      [''o_orderkey'' \<mapsto> ''103'', ''o_custkey'' \<mapsto> ''13'', ''o_orderdate'' \<mapsto> ''1994-12-31''],
      [''o_orderkey'' \<mapsto> ''104'', ''o_custkey'' \<mapsto> ''11'', ''o_orderdate'' \<mapsto> ''1995-01-01''],
      [''o_orderkey'' \<mapsto> ''105'', ''o_custkey'' \<mapsto> ''14'', ''o_orderdate'' \<mapsto> ''1994-05-05'']]"

definition ex_lineitems :: table where
  "ex_lineitems =
     [[''l_orderkey'' \<mapsto> ''101'', ''l_suppkey'' \<mapsto> ''21'',
       ''l_extendedprice'' \<mapsto> ''100.0'', ''l_discount'' \<mapsto> ''0.5''],
      [''l_orderkey'' \<mapsto> ''102'', ''l_suppkey'' \<mapsto> ''22'',
       ''l_extendedprice'' \<mapsto> ''250.0'', ''l_discount'' \<mapsto> ''0.2''],
      [''l_orderkey'' \<mapsto> ''104'', ''l_suppkey'' \<mapsto> ''21'',
       ''l_extendedprice'' \<mapsto> ''999.0'', ''l_discount'' \<mapsto> ''0.0''],
      [''l_orderkey'' \<mapsto> ''101'', ''l_suppkey'' \<mapsto> ''22'',
       ''l_extendedprice'' \<mapsto> ''70.0'', ''l_discount'' \<mapsto> ''0.0''],
      [''l_orderkey'' \<mapsto> ''103'', ''l_suppkey'' \<mapsto> ''23'',
       ''l_extendedprice'' \<mapsto> ''10.0'', ''l_discount'' \<mapsto> ''0.0'']]"

text \<open>
  Two variants of the line items. In the first, a line item whose price is not a number
  belongs to order 104, which lies outside the date window. In the second, the line item
  of nation B, which passes every filter, has a discount that is not a number.
\<close>

definition ex_lineitems_skipped :: table where
  "ex_lineitems_skipped =
     [''l_orderkey'' \<mapsto> ''104'', ''l_suppkey'' \<mapsto> ''21'',
      ''l_extendedprice'' \<mapsto> ''abc'', ''l_discount'' \<mapsto> ''0.0''] # ex_lineitems"

definition ex_lineitems_fatal :: table where
  "ex_lineitems_fatal =
     [[''l_orderkey'' \<mapsto> ''101'', ''l_suppkey'' \<mapsto> ''21'',
       ''l_extendedprice'' \<mapsto> ''100.0'', ''l_discount'' \<mapsto> ''0.5''],
      [''l_orderkey'' \<mapsto> ''102'', ''l_suppkey'' \<mapsto> ''22'',
       ''l_extendedprice'' \<mapsto> ''250.0'', ''l_discount'' \<mapsto> ''n/a'']]"

section \<open>Basic facts\<close>

lemma bindE_Inl [simp]: "bindE (Inl e) f = Inl e"
  by (simp add: bindE_def)

lemma bindE_Inr [simp]: "bindE (Inr x) f = f x"
  by (simp add: bindE_def)

lemma bindE_eq_Inr: "bindE m f = Inr y \<longleftrightarrow> (\<exists>x. m = Inr x \<and> f x = Inr y)"
  by (cases m) simp_all

lemma foldE_append: "foldE f (xs @ ys) s = bindE (foldE f xs s) (foldE f ys)"
proof (induction xs arbitrary: s)
  case Nil
  show ?case by simp
next
  case (Cons x xs)
  show ?case
  proof (cases "f x s")
    case (Inl e)
    then show ?thesis by simp
  next
    case (Inr s')
    then show ?thesis by (simp add: Cons.IH)
  qed
qed

section \<open>Arithmetic of the chunk bounds\<close>

lemma times_div_le:
  fixes i :: nat
  assumes "i \<le> N"
  shows "i * (M div N) \<le> M"
proof -
  have "i * (M div N) \<le> N * (M div N)" using assms by (rule mult_le_mono1)
  also have "\<dots> \<le> M" by simp
  finally show ?thesis .
qed

lemma chunk_bounds_le:
  assumes "1 \<le> N" "i < N"
  shows "fst (chunk_bounds M N i) \<le> snd (chunk_bounds M N i)"
    and "snd (chunk_bounds M N i) \<le> M"
proof -
  have lo: "i * (M div N) \<le> M" using assms by (intro times_div_le) simp
  have hi: "(i + 1) * (M div N) \<le> M" using assms by (intro times_div_le) simp
  show "fst (chunk_bounds M N i) \<le> snd (chunk_bounds M N i)"
    using lo by (auto simp: chunk_bounds_def Let_def)
  show "snd (chunk_bounds M N i) \<le> M"
    using hi by (simp add: chunk_bounds_def Let_def)
qed

lemma concat_chunks_prefix:
  "concat (map (\<lambda>i. [i * c..<(i + 1) * c]) [0..<k]) = [0..<k * c]"
proof (induction k)
  case 0
  show ?case by simp
next
  case (Suc k)
  have "[0..<k * c] @ [k * c..<(k + 1) * c] = [0..<(k + 1) * c]"
    by (metis Suc_eq_plus1 le_add2 mult_Suc upt_add_eq_append zero_le add.commute)
  then show ?case using Suc by simp
qed

lemma concat_chunk_bounds:
  assumes "1 \<le> N"
  shows "concat (map (\<lambda>i. [fst (chunk_bounds M N i)..<snd (chunk_bounds M N i)]) [0..<N]) = [0..<M]"
proof -
  let ?c = "M div N"
  let ?f = "\<lambda>i. [fst (chunk_bounds M N i)..<snd (chunk_bounds M N i)]"
  obtain k where N: "N = Suc k" using assms by (cases N) auto
  have pre: "map ?f [0..<k] = map (\<lambda>i. [i * ?c..<(i + 1) * ?c]) [0..<k]"
    by (rule map_cong) (auto simp: chunk_bounds_def Let_def N)
  have last: "?f k = [k * ?c..<M]"
    by (simp add: chunk_bounds_def Let_def N)
  have le: "k * ?c \<le> M" by (intro times_div_le) (simp add: N)
  have "concat (map ?f [0..<N]) = concat (map ?f [0..<k]) @ ?f k"
    unfolding N by simp
  also have "\<dots> = [0..<k * ?c] @ [k * ?c..<M]"
    unfolding pre last concat_chunks_prefix ..
  also have "\<dots> = [0..<M]"
    using le by (metis le_add_diff_inverse upt_add_eq_append zero_le)
  finally show ?thesis .
qed

lemma chunk_bounds_adjacent:
  assumes "Suc i < N"
  shows "snd (chunk_bounds M N i) = fst (chunk_bounds M N (Suc i))"
    and "snd (chunk_bounds M N i) - fst (chunk_bounds M N i) = M div N"
  using assms by (auto simp: chunk_bounds_def Let_def)

lemma chunk_bounds_ends:
  assumes "1 \<le> N"
  shows "fst (chunk_bounds M N 0) = 0" and "snd (chunk_bounds M N (N - 1)) = M"
  by (simp_all add: chunk_bounds_def Let_def)

lemma chunk_bounds_mono:
  assumes "i < j" "j < N"
  shows "snd (chunk_bounds M N i) \<le> fst (chunk_bounds M N j)"
proof -
  have "Suc i \<le> j" using assms by simp
  then have "Suc i * (M div N) \<le> j * (M div N)" by (rule mult_le_mono1)
  moreover have "i \<noteq> N - 1" using assms by simp
  ultimately show ?thesis by (simp add: chunk_bounds_def Let_def)
qed

lemma chunk_bounds_disjoint:
  assumes "i < N" "j < N" "i \<noteq> j"
  shows "{fst (chunk_bounds M N i)..<snd (chunk_bounds M N i)}
           \<inter> {fst (chunk_bounds M N j)..<snd (chunk_bounds M N j)} = {}"
proof (cases "i < j")
  case True
  from chunk_bounds_mono [OF True assms(2), of M] show ?thesis by auto
next
  case False
  then have "j < i" using assms by simp
  from chunk_bounds_mono [OF this assms(1), of M] show ?thesis by auto
qed

lemma chunk_bounds_union:
  assumes "1 \<le> N"
  shows "(\<Union>i\<in>{0..<N}. {fst (chunk_bounds M N i)..<snd (chunk_bounds M N i)}) = {0..<M}"
proof -
  have "set (concat (map (\<lambda>i. [fst (chunk_bounds M N i)..<snd (chunk_bounds M N i)]) [0..<N]))
          = set [0..<M]"
    using concat_chunk_bounds [OF assms, of M] by simp
  then show ?thesis by simp
qed

lemma worker_empty_range:
  assumes "end_idx \<le> start_idx"
  shows "worker stod valid_orders valid_suppliers lineitem_data thread_id start_idx end_idx st = Inr st"
  using assms by (simp add: worker_def)

section \<open>The index ranges of the workers\<close>

text \<open>
  C3. For every worker count \<open>N \<ge> 1\<close> and every line-item collection of size \<open>M\<close>
  (also when \<open>N > M\<close>), the \<open>N\<close> index ranges handed to the workers are contiguous (each
  range ends where the next one starts, the first starts at 0, and read one after the other
  they list every index of \<open>[0, M)\<close> exactly once), pairwise disjoint, and their union is
  exactly \<open>[0, M)\<close>; every range but the last has \<open>M div N\<close> indices and the last one ends
  at \<open>M\<close>, so it takes the remainder. A worker whose range is empty returns the state it was
  given, without a fault.
\<close>

theorem partition_cover:
  assumes "1 \<le> N"
  shows "concat (map (\<lambda>i. [fst (chunk_bounds M N i)..<snd (chunk_bounds M N i)]) [0..<N]) = [0..<M]
       \<and> (\<Union>i\<in>{0..<N}. {fst (chunk_bounds M N i)..<snd (chunk_bounds M N i)}) = {0..<M}
       \<and> (\<forall>i<N. \<forall>j<N. i \<noteq> j \<longrightarrow>
             {fst (chunk_bounds M N i)..<snd (chunk_bounds M N i)}
               \<inter> {fst (chunk_bounds M N j)..<snd (chunk_bounds M N j)} = {})
       \<and> (\<forall>i. Suc i < N \<longrightarrow>
             snd (chunk_bounds M N i) = fst (chunk_bounds M N (Suc i))
             \<and> snd (chunk_bounds M N i) - fst (chunk_bounds M N i) = M div N)
       \<and> fst (chunk_bounds M N 0) = 0
       \<and> snd (chunk_bounds M N (N - 1)) = M
       \<and> (\<forall>i<N. fst (chunk_bounds M N i) \<le> snd (chunk_bounds M N i)
                  \<and> snd (chunk_bounds M N i) \<le> M)
       \<and> (\<forall>i<N. \<forall>stod valid_orders valid_suppliers lineitem_data st.
             snd (chunk_bounds M N i) \<le> fst (chunk_bounds M N i) \<longrightarrow>
             worker stod valid_orders valid_suppliers lineitem_data i
               (fst (chunk_bounds M N i)) (snd (chunk_bounds M N i)) st = Inr st)"
proof (intro conjI allI impI)
  show "concat (map (\<lambda>i. [fst (chunk_bounds M N i)..<snd (chunk_bounds M N i)]) [0..<N]) = [0..<M]"
    by (rule concat_chunk_bounds [OF assms])
  show "(\<Union>i\<in>{0..<N}. {fst (chunk_bounds M N i)..<snd (chunk_bounds M N i)}) = {0..<M}"
    by (rule chunk_bounds_union [OF assms])
  show "fst (chunk_bounds M N 0) = 0"
    by (rule chunk_bounds_ends [OF assms])
  show "snd (chunk_bounds M N (N - 1)) = M"
    by (rule chunk_bounds_ends [OF assms])
next
  fix i j assume "i < N" "j < N" "i \<noteq> j"
  then show "{fst (chunk_bounds M N i)..<snd (chunk_bounds M N i)}
               \<inter> {fst (chunk_bounds M N j)..<snd (chunk_bounds M N j)} = {}"
    by (rule chunk_bounds_disjoint)
next
  fix i assume "Suc i < N"
  then show "snd (chunk_bounds M N i) = fst (chunk_bounds M N (Suc i))"
    and "snd (chunk_bounds M N i) - fst (chunk_bounds M N i) = M div N"
    by (rule chunk_bounds_adjacent)+
next
  fix i assume "i < N"
  then show "fst (chunk_bounds M N i) \<le> snd (chunk_bounds M N i)"
    and "snd (chunk_bounds M N i) \<le> M"
    using chunk_bounds_le [OF assms] by blast+
next
  fix i stod valid_orders valid_suppliers lineitem_data st
  assume "snd (chunk_bounds M N i) \<le> fst (chunk_bounds M N i)"
  then show "worker stod valid_orders valid_suppliers lineitem_data i
               (fst (chunk_bounds M N i)) (snd (chunk_bounds M N i)) st = Inr st"
    by (rule worker_empty_range)
qed

text \<open>Three workers on two line items: the first two ranges are empty, the last is \<open>[0, 2)\<close>.\<close>

theorem partition_cover_witness:
  "(1::nat) \<le> 3
   \<and> chunk_bounds 2 3 0 = (0, 0) \<and> chunk_bounds 2 3 1 = (0, 0) \<and> chunk_bounds 2 3 2 = (0, 2)
   \<and> concat (map (\<lambda>i. [fst (chunk_bounds 2 3 i)..<snd (chunk_bounds 2 3 i)]) [0..<3]) = [0..<2]
   \<and> worker (\<lambda>s. Inl InvalidArgument) Map.empty Map.empty [] 1 0 0
        \<lparr>w_valid_customers = Map.empty, w_nation_key_to_name = Map.empty,
         w_thread_results = [[], [], []]\<rparr>
       = Inr \<lparr>w_valid_customers = Map.empty, w_nation_key_to_name = Map.empty,
              w_thread_results = [[], [], []]\<rparr>"
proof -
  have h: "(1::nat) \<le> 3" by simp
  have cb: "chunk_bounds 2 3 0 = (0, 0)" "chunk_bounds 2 3 1 = (0, 0)" "chunk_bounds 2 3 2 = (0, 2)"
    by (simp_all add: chunk_bounds_def)
  note pc = partition_cover [OF h, of 2]
  from pc have c: "concat (map (\<lambda>i. [fst (chunk_bounds 2 3 i)..<snd (chunk_bounds 2 3 i)]) [0..<3]) = [0..<2]"
    by (rule conjunct1)
  from pc have "\<forall>i<3. \<forall>stod valid_orders valid_suppliers lineitem_data st.
             snd (chunk_bounds 2 3 i) \<le> fst (chunk_bounds 2 3 i) \<longrightarrow>
             worker stod valid_orders valid_suppliers lineitem_data i
               (fst (chunk_bounds 2 3 i)) (snd (chunk_bounds 2 3 i)) st = Inr st"
    by (elim conjE)
  then have w: "worker (\<lambda>s. Inl InvalidArgument) Map.empty Map.empty [] 1 0 0
        \<lparr>w_valid_customers = Map.empty, w_nation_key_to_name = Map.empty,
         w_thread_results = [[], [], []]\<rparr>
       = Inr \<lparr>w_valid_customers = Map.empty, w_nation_key_to_name = Map.empty,
              w_thread_results = [[], [], []]\<rparr>"
    using cb(2) by (metis fst_conv snd_conv le_refl one_less_numeral_iff semiring_norm(77))
  show ?thesis using h cb c w by simp
qed

section \<open>The filter loops as guarded assignments\<close>

lemma map_at_col: "r c \<noteq> None \<Longrightarrow> map_at r c = Inr (col r c)"
  by (auto simp: map_at_def col_def)

lemma foldE_pure:
  assumes "\<And>r m. r \<in> set rows \<Longrightarrow> f r m = Inr (g r m)"
  shows "foldE f rows m = Inr (fold g rows m)"
  using assms by (induction rows arbitrary: m) simp_all

lemma fold_cond_insert_dom:
  "dom (fold (cond_insert P key val) rows m) = dom m \<union> (\<lambda>r. col r key) ` {r \<in> set rows. P r}"
  by (induction rows arbitrary: m) (auto simp: cond_insert_def)

lemma fold_cond_insert_Some:
  "fold (cond_insert P key val) rows m k = Some v \<Longrightarrow>
     m k = Some v \<or> (\<exists>r\<in>set rows. P r \<and> col r key = k \<and> col r val = v)"
proof (induction rows arbitrary: m)
  case Nil
  then show ?case by simp
next
  case (Cons r rows)
  from Cons.IH [OF Cons.prems [simplified]] show ?case
    by (auto simp: cond_insert_def split: if_splits)
qed

lemma cond_insert_yes: "P r \<Longrightarrow> cond_insert P key val r m = m(col r key \<mapsto> col r val)"
  by (simp add: cond_insert_def)

lemma fold_cond_insert_other:
  "\<forall>r\<in>set rows. P r \<longrightarrow> col r key \<noteq> k \<Longrightarrow> fold (cond_insert P key val) rows m k = m k"
  by (induction rows arbitrary: m) (auto simp: cond_insert_def)

lemma fold_cond_insert_unique:
  assumes "\<exists>r\<in>set rows. P r \<and> col r key = k"
    and "\<forall>r\<in>set rows. P r \<and> col r key = k \<longrightarrow> col r val = v"
  shows "fold (cond_insert P key val) rows m k = Some v"
  using assms
proof (induction rows arbitrary: m)
  case Nil
  then show ?case by simp
next
  case (Cons r0 rows)
  show ?case
  proof (cases "\<exists>r\<in>set rows. P r \<and> col r key = k")
    case True
    then show ?thesis using Cons.IH Cons.prems(2) by simp
  next
    case False
    then have r0: "P r0" "col r0 key = k" "col r0 val = v" using Cons.prems by auto
    from False have "\<forall>r\<in>set rows. P r \<longrightarrow> col r key \<noteq> k" by blast
    from fold_cond_insert_other [OF this] r0 show ?thesis by (simp add: cond_insert_yes)
  qed
qed

lemma order_step_pure:
  assumes "ord ''o_orderkey'' \<noteq> None" "ord ''o_custkey'' \<noteq> None" "ord ''o_orderdate'' \<noteq> None"
  shows "order_step sd ed vc ord m
           = Inr (cond_insert (order_selected sd ed vc) ''o_orderkey'' ''o_custkey'' ord m)"
  using assms by (auto simp: order_step_def cond_insert_def order_selected_def map_at_col)


lemma has_columnsD: "has_columns cols t \<Longrightarrow> r \<in> set t \<Longrightarrow> c \<in> set cols \<Longrightarrow> r c \<noteq> None"
  by (simp add: has_columns_def)

lemma orders_pure:
  assumes "has_columns [''o_orderkey'', ''o_custkey'', ''o_orderdate''] orders_data"
  shows "foldE (order_step sd ed vc) orders_data m
           = Inr (fold (cond_insert (order_selected sd ed vc) ''o_orderkey'' ''o_custkey'') orders_data m)"
proof (rule foldE_pure)
  fix r m assume "r \<in> set orders_data"
  with assms have "r ''o_orderkey'' \<noteq> None" "r ''o_custkey'' \<noteq> None" "r ''o_orderdate'' \<noteq> None"
    by (auto dest: has_columnsD)
  then show "order_step sd ed vc r m
      = Inr (cond_insert (order_selected sd ed vc) ''o_orderkey'' ''o_custkey'' r m)"
    by (rule order_step_pure)
qed

text \<open>
  C4. For every orders collection whose records carry the order key, customer key and order
  date, the order loop ends without a fault, and an order key is in the resulting
  \<^verbatim>\<open>valid_orders\<close> mapping if and only if some order with that key has an order date
  that is lexicographically at least \<open>start_date\<close> and strictly below \<open>end_date\<close> and a
  customer key present in the valid-customer mapping; the customer key stored under it comes
  from such an order; and the loop body assigns the order's key exactly under that condition.
\<close>

theorem valid_orders_iff:
  assumes "has_columns [''o_orderkey'', ''o_custkey'', ''o_orderdate''] orders_data"
  shows "\<exists>valid_orders.
           foldE (order_step start_date end_date valid_customers) orders_data Map.empty = Inr valid_orders
         \<and> (\<forall>k. k \<in> dom valid_orders \<longleftrightarrow>
                (\<exists>ord\<in>set orders_data. col ord ''o_orderkey'' = k
                    \<and> col ord ''o_orderdate'' \<ge> start_date \<and> col ord ''o_orderdate'' < end_date
                    \<and> col ord ''o_custkey'' \<in> dom valid_customers))
         \<and> (\<forall>k c. valid_orders k = Some c \<longrightarrow>
                (\<exists>ord\<in>set orders_data. col ord ''o_orderkey'' = k \<and> col ord ''o_custkey'' = c
                    \<and> col ord ''o_orderdate'' \<ge> start_date \<and> col ord ''o_orderdate'' < end_date
                    \<and> c \<in> dom valid_customers))
         \<and> (\<forall>ord\<in>set orders_data. \<forall>m.
                order_step start_date end_date valid_customers ord m
                  = Inr (if col ord ''o_orderdate'' \<ge> start_date \<and> col ord ''o_orderdate'' < end_date
                            \<and> col ord ''o_custkey'' \<in> dom valid_customers
                         then m(col ord ''o_orderkey'' \<mapsto> col ord ''o_custkey'') else m))"
proof -
  let ?P = "order_selected start_date end_date valid_customers"
  let ?vo = "fold (cond_insert ?P ''o_orderkey'' ''o_custkey'') orders_data Map.empty"
  have run: "foldE (order_step start_date end_date valid_customers) orders_data Map.empty = Inr ?vo"
    by (rule orders_pure [OF assms])
  have dom: "\<forall>k. k \<in> dom ?vo \<longleftrightarrow>
                (\<exists>ord\<in>set orders_data. col ord ''o_orderkey'' = k
                    \<and> col ord ''o_orderdate'' \<ge> start_date \<and> col ord ''o_orderdate'' < end_date
                    \<and> col ord ''o_custkey'' \<in> dom valid_customers)"
    unfolding fold_cond_insert_dom by (auto simp: order_selected_def)
  have val: "\<forall>k c. ?vo k = Some c \<longrightarrow>
                (\<exists>ord\<in>set orders_data. col ord ''o_orderkey'' = k \<and> col ord ''o_custkey'' = c
                    \<and> col ord ''o_orderdate'' \<ge> start_date \<and> col ord ''o_orderdate'' < end_date
                    \<and> c \<in> dom valid_customers)"
  proof (intro allI impI)
    fix k c assume "?vo k = Some c"
    from fold_cond_insert_Some [OF this] show "\<exists>ord\<in>set orders_data. col ord ''o_orderkey'' = k
        \<and> col ord ''o_custkey'' = c
        \<and> col ord ''o_orderdate'' \<ge> start_date \<and> col ord ''o_orderdate'' < end_date
        \<and> c \<in> dom valid_customers"
      by (auto simp: order_selected_def)
  qed
  have step: "\<forall>ord\<in>set orders_data. \<forall>m.
                order_step start_date end_date valid_customers ord m
                  = Inr (if col ord ''o_orderdate'' \<ge> start_date \<and> col ord ''o_orderdate'' < end_date
                            \<and> col ord ''o_custkey'' \<in> dom valid_customers
                         then m(col ord ''o_orderkey'' \<mapsto> col ord ''o_custkey'') else m)"
  proof (intro ballI allI)
    fix ord m assume "ord \<in> set orders_data"
    with assms have "ord ''o_orderkey'' \<noteq> None" "ord ''o_custkey'' \<noteq> None" "ord ''o_orderdate'' \<noteq> None"
      by (auto dest: has_columnsD)
    from order_step_pure [OF this] show "order_step start_date end_date valid_customers ord m
                  = Inr (if col ord ''o_orderdate'' \<ge> start_date \<and> col ord ''o_orderdate'' < end_date
                            \<and> col ord ''o_custkey'' \<in> dom valid_customers
                         then m(col ord ''o_orderkey'' \<mapsto> col ord ''o_custkey'') else m)"
      by (simp add: cond_insert_def order_selected_def)
  qed
  from run dom val step show ?thesis by blast
qed

text \<open>
  Order 1 is dated on \<open>start_date\<close> (kept), order 2 on \<open>end_date\<close> (dropped: the end is
  exclusive), order 3 is in the window but its customer is not valid (dropped).
\<close>

theorem valid_orders_iff_witness:
  "has_columns [''o_orderkey'', ''o_custkey'', ''o_orderdate'']
     [[''o_orderkey'' \<mapsto> ''1'', ''o_custkey'' \<mapsto> ''7'', ''o_orderdate'' \<mapsto> ''1994-01-01''],
      [''o_orderkey'' \<mapsto> ''2'', ''o_custkey'' \<mapsto> ''7'', ''o_orderdate'' \<mapsto> ''1995-01-01''],
      [''o_orderkey'' \<mapsto> ''3'', ''o_custkey'' \<mapsto> ''8'', ''o_orderdate'' \<mapsto> ''1994-06-30'']]
   \<and> (\<exists>valid_orders.
        foldE (order_step ''1994-01-01'' ''1995-01-01'' [''7'' \<mapsto> ''3''])
          [[''o_orderkey'' \<mapsto> ''1'', ''o_custkey'' \<mapsto> ''7'', ''o_orderdate'' \<mapsto> ''1994-01-01''],
           [''o_orderkey'' \<mapsto> ''2'', ''o_custkey'' \<mapsto> ''7'', ''o_orderdate'' \<mapsto> ''1995-01-01''],
           [''o_orderkey'' \<mapsto> ''3'', ''o_custkey'' \<mapsto> ''8'', ''o_orderdate'' \<mapsto> ''1994-06-30'']]
          Map.empty = Inr valid_orders
        \<and> ''1'' \<in> dom valid_orders \<and> ''2'' \<notin> dom valid_orders \<and> ''3'' \<notin> dom valid_orders)"
proof -
  let ?t = "[[''o_orderkey'' \<mapsto> ''1'', ''o_custkey'' \<mapsto> ''7'', ''o_orderdate'' \<mapsto> ''1994-01-01''],
      [''o_orderkey'' \<mapsto> ''2'', ''o_custkey'' \<mapsto> ''7'', ''o_orderdate'' \<mapsto> ''1995-01-01''],
      [''o_orderkey'' \<mapsto> ''3'', ''o_custkey'' \<mapsto> ''8'', ''o_orderdate'' \<mapsto> ''1994-06-30'']]"
  have h: "has_columns [''o_orderkey'', ''o_custkey'', ''o_orderdate''] ?t"
    by (simp add: has_columns_def)
  from valid_orders_iff [OF h, of "''1994-01-01''" "''1995-01-01''" "[''7'' \<mapsto> ''3'']"]
  obtain vo where run: "foldE (order_step ''1994-01-01'' ''1995-01-01'' [''7'' \<mapsto> ''3'']) ?t Map.empty = Inr vo"
    and dom: "\<And>k. k \<in> dom vo \<longleftrightarrow>
                (\<exists>ord\<in>set ?t. col ord ''o_orderkey'' = k
                    \<and> col ord ''o_orderdate'' \<ge> ''1994-01-01'' \<and> col ord ''o_orderdate'' < ''1995-01-01''
                    \<and> col ord ''o_custkey'' \<in> dom [''7'' \<mapsto> ''3''])"
    by blast
  have "''1'' \<in> dom vo" "''2'' \<notin> dom vo" "''3'' \<notin> dom vo"
    unfolding dom by (simp_all add: col_def)
  with h run show ?thesis by blast
qed

lemma executeQuery5_split:
  "executeQuery5 stod r_name start_date end_date num_threads
       customer_data orders_data lineitem_data supplier_data nation_data region_data results
   = bindE (dimension_filter r_name start_date end_date customer_data orders_data supplier_data
              nation_data region_data)
       (join_aggregate stod num_threads lineitem_data results)"
  unfolding executeQuery5_def dimension_filter_def join_aggregate_def
  by (auto simp: bindE_def split: sum.splits)

lemma foldE_invariant:
  assumes "foldE f rows s = Inr s'" "I s"
    and "\<And>r a b. r \<in> set rows \<Longrightarrow> I a \<Longrightarrow> f r a = Inr b \<Longrightarrow> I b"
  shows "I s'"
  using assms
proof (induction rows arbitrary: s)
  case Nil
  then show ?case by simp
next
  case (Cons r rows)
  from Cons.prems(1) obtain a where a: "f r s = Inr a" "foldE f rows a = Inr s'"
    by (auto simp: bindE_eq_Inr)
  have "I a" using Cons.prems(3) [of r s a] Cons.prems(2) a(1) by simp
  moreover have "\<And>r a b. r \<in> set rows \<Longrightarrow> I a \<Longrightarrow> f r a = Inr b \<Longrightarrow> I b"
    by (meson Cons.prems(3) list.set_intros(2))
  ultimately show ?case using Cons.IH [OF a(2)] by blast
qed

lemma map_at_Inr: "map_at r c = Inr v \<longleftrightarrow> r c = Some v"
  by (auto simp: map_at_def split: option.splits)

lemma customer_step_into:
  assumes "customer_step nk c m = Inr m'" "maps_into m nk"
  shows "maps_into m' nk"
  using assms
  by (auto simp: maps_into_def customer_step_def bindE_eq_Inr map_at_Inr split: if_splits)

lemma supplier_step_into:
  assumes "supplier_step nk c m = Inr m'" "maps_into m nk"
  shows "maps_into m' nk"
  using assms
  by (auto simp: maps_into_def supplier_step_def bindE_eq_Inr map_at_Inr split: if_splits)

lemma order_step_into:
  assumes "order_step sd ed vc c m = Inr m'" "maps_into m vc"
  shows "maps_into m' vc"
  using assms
  by (auto simp: maps_into_def order_step_def bindE_eq_Inr map_at_Inr split: if_splits)

lemma dimension_filter_closed:
  assumes "dimension_filter r_name sd ed customers orders suppliers nations regions
             = Inr (nk, vc, vs, vo)"
  shows "lookups_closed nk vc vs vo"
proof -
  from assms have
        c: "foldE (customer_step nk) customers Map.empty = Inr vc"
    and s: "foldE (supplier_step nk) suppliers Map.empty = Inr vs"
    and o: "foldE (order_step sd ed vc) orders Map.empty = Inr vo"
    unfolding dimension_filter_def by (auto simp: bindE_eq_Inr)
  have "maps_into vc nk"
    by (rule foldE_invariant [OF c, where I = "\<lambda>m. maps_into m nk"])
       (auto dest: customer_step_into simp: maps_into_def)
  moreover have "maps_into vs nk"
    by (rule foldE_invariant [OF s, where I = "\<lambda>m. maps_into m nk"])
       (auto dest: supplier_step_into simp: maps_into_def)
  moreover have "maps_into vo vc"
    by (rule foldE_invariant [OF o, where I = "\<lambda>m. maps_into m vc"])
       (auto dest: order_step_into simp: maps_into_def)
  ultimately show ?thesis by (simp add: lookups_closed_def maps_into_def)
qed

section \<open>Accumulating into a std::map\<close>

lemma accum_add_keys: "fst ` set (accum_add k v m) = insert k (fst ` set m)"
proof (induction m)
  case Nil
  show ?case by simp
next
  case (Cons p m)
  obtain k' v' where p: "p = (k', v')" by (cases p)
  consider "k < k'" | "k = k'" | "\<not> k < k'" "k \<noteq> k'" by blast
  then show ?case
  proof cases
    case 1
    then show ?thesis by (simp add: p)
  next
    case 2
    then show ?thesis by (simp add: p)
  next
    case 3
    then have "accum_add k v (p # m) = (k', v') # accum_add k v m" by (simp add: p)
    then show ?thesis using Cons.IH by (simp add: p insert_commute)
  qed
qed

lemma accum_add_std: "is_std_map m \<Longrightarrow> is_std_map (accum_add k v m)"
proof (induction m)
  case Nil
  then show ?case by (simp add: is_std_map_def)
next
  case (Cons p m)
  obtain k' v' where p: "p = (k', v')" by (cases p)
  have tail: "is_std_map m" and below: "\<forall>x\<in>fst ` set m. k' < x"
    using Cons.prems by (auto simp: is_std_map_def p)
  show ?case
  proof (cases "k < k'")
    case True
    then show ?thesis using Cons.prems by (auto simp: is_std_map_def p)
  next
    case False
    show ?thesis
    proof (cases "k = k'")
      case True
      then show ?thesis using Cons.prems by (auto simp: is_std_map_def p)
    next
      case ne: False
      with False have "k' < k" by simp
      moreover have "is_std_map (accum_add k v m)" by (rule Cons.IH [OF tail])
      ultimately have "sorted_wrt (<) (k' # map fst (accum_add k v m))"
        using below accum_add_keys [of k v m] by (auto simp: is_std_map_def)
      then show ?thesis using False ne by (simp add: is_std_map_def p)
    qed
  qed
qed

lemma std_map_of_None:
  assumes "is_std_map ((k', v') # m)" "k \<le> k'"
  shows "map_of m k = None"
proof -
  have "\<forall>x\<in>fst ` set m. k' < x" using assms(1) by (auto simp: is_std_map_def)
  then have "k \<notin> fst ` set m" using assms(2) by auto
  then show ?thesis by (simp add: map_of_eq_None_iff)
qed

lemma accum_add_total:
  "is_std_map m \<Longrightarrow> total (accum_add k v m) k' = total m k' + (if k' = k then v else 0)"
proof (induction m)
  case Nil
  then show ?case by (simp add: total_def)
next
  case (Cons p m)
  obtain k0 v0 where p: "p = (k0, v0)" by (cases p)
  have tail: "is_std_map m" using Cons.prems by (auto simp: is_std_map_def p)
  note IH = Cons.IH [OF tail]
  show ?case
  proof (cases "k < k0")
    case True
    then have "map_of m k = None" using std_map_of_None [of k0 v0 m k] Cons.prems by (simp add: p)
    then show ?thesis using True by (auto simp: total_def p)
  next
    case False
    show ?thesis
    proof (cases "k = k0")
      case True
      then show ?thesis by (auto simp: total_def p)
    next
      case ne: False
      then show ?thesis using False IH by (auto simp: total_def p)
    qed
  qed
qed

lemma map_of_total:
  "map_of m k = (if k \<in> fst ` set m then Some (total m k) else None)"
  by (auto simp: total_def map_of_eq_None_iff split: option.splits)

lemma std_map_unique:
  assumes "is_std_map a" "is_std_map b" "fst ` set a = fst ` set b" "\<And>k. total a k = total b k"
  shows "a = b"
proof -
  have da: "sorted (map fst a)" "distinct (map fst a)" and db: "sorted (map fst b)" "distinct (map fst b)"
    using assms(1,2) by (simp_all add: is_std_map_def strict_sorted_iff)
  have "map_of a = map_of b"
    by (rule ext) (simp add: map_of_total assms(3,4))
  then have eq: "set a = set b" using da(2) db(2) by (simp add: map_of_inject_set)
  have "inj_on fst (set a \<union> set b)" using da(2) eq by (simp add: distinct_map)
  then show ?thesis using da db eq by (rule map_sorted_distinct_set_unique)
qed

lemma add_contribution_std: "is_std_map m \<Longrightarrow> is_std_map (add_contribution r m)"
  by (auto simp: add_contribution_def accum_add_std split: option.splits)

lemma add_contribution_keys:
  "fst ` set (add_contribution r m) = fst ` set m \<union> contrib_names [r]"
  by (auto simp: add_contribution_def accum_add_keys contrib_names_def split: option.splits)

lemma add_contribution_total:
  "is_std_map m \<Longrightarrow> total (add_contribution r m) k = total m k + contrib_sum [r] k"
  by (auto simp: add_contribution_def accum_add_total contrib_sum_def split: option.splits)

lemma contrib_sum_append: "contrib_sum (rs @ rs') k = contrib_sum rs k + contrib_sum rs' k"
  by (simp add: contrib_sum_def)

lemma contrib_names_append: "contrib_names (rs @ rs') = contrib_names rs \<union> contrib_names rs'"
  by (auto simp: contrib_names_def)

lemma contrib_sum_Nil [simp]: "contrib_sum [] k = 0"
  by (simp add: contrib_sum_def)

lemma contrib_names_Nil [simp]: "contrib_names [] = {}"
  by (simp add: contrib_names_def)

lemma fold_add_contribution:
  assumes "is_std_map m"
  shows "is_std_map (fold add_contribution rs m)"
    and "fst ` set (fold add_contribution rs m) = fst ` set m \<union> contrib_names rs"
    and "total (fold add_contribution rs m) k = total m k + contrib_sum rs k"
  using assms
proof (induction rs arbitrary: m)
  case Nil
  {
    case 1 then show ?case by simp
  next
    case 2 then show ?case by simp
  next
    case 3 then show ?case by simp
  }
next
  case (Cons r rs)
  {
    case 1
    then show ?case using Cons.IH(1) [of "add_contribution r m"] by (simp add: add_contribution_std)
  next
    case 2
    then show ?case
      using Cons.IH(2) [of "add_contribution r m"] contrib_names_append [of "[r]" rs]
      by (simp add: add_contribution_std add_contribution_keys Un_assoc)
  next
    case 3
    then show ?case
      using Cons.IH(3) [of "add_contribution r m"] contrib_sum_append [of "[r]" rs k]
      by (simp add: add_contribution_std add_contribution_total)
  }
qed

section \<open>The per-thread maps\<close>

lemma grand_total_update:
  assumes "i < length trs"
  shows "grand_total (trs[i := p]) k = grand_total trs k - total (trs ! i) k + total p k"
  using assms
proof (induction trs arbitrary: i)
  case Nil
  then show ?case by simp
next
  case (Cons q trs)
  then show ?case by (cases i) (simp_all add: grand_total_def)
qed

lemma all_keys_update_add:
  assumes "i < length trs"
  shows "all_keys (trs[i := add_contribution r (trs ! i)]) = all_keys trs \<union> contrib_names [r]"
  using assms
proof (induction trs arbitrary: i)
  case Nil
  then show ?case by simp
next
  case (Cons q trs)
  show ?case
  proof (cases i)
    case 0
    then show ?thesis by (auto simp: all_keys_def add_contribution_keys)
  next
    case (Suc j)
    then have "j < length trs" using Cons.prems by simp
    from Cons.IH [OF this] show ?thesis using Suc by (auto simp: all_keys_def)
  qed
qed

lemma adds_step:
  assumes "i < length (w_thread_results st)" "\<forall>p\<in>set (w_thread_results st). is_std_map p"
  shows "adds [r] st (st\<lparr>w_thread_results :=
            (w_thread_results st)[i := add_contribution r (w_thread_results st ! i)]\<rparr>)"
proof -
  let ?trs = "w_thread_results st"
  have std_i: "is_std_map (?trs ! i)" using assms by simp
  have "\<forall>p\<in>set (?trs[i := add_contribution r (?trs ! i)]). is_std_map p"
  proof
    fix p assume "p \<in> set (?trs[i := add_contribution r (?trs ! i)])"
    then have "p \<in> insert (add_contribution r (?trs ! i)) (set ?trs)"
      using set_update_subset_insert by fast
    then show "is_std_map p" using assms(2) add_contribution_std [OF std_i] by auto
  qed
  moreover have "\<forall>k. grand_total (?trs[i := add_contribution r (?trs ! i)]) k
                     = grand_total ?trs k + contrib_sum [r] k"
    by (simp add: grand_total_update [OF assms(1)] add_contribution_total [OF std_i])
  ultimately show ?thesis
    by (simp add: adds_def all_keys_update_add [OF assms(1)])
qed

lemma adds_Nil:
  assumes "\<forall>p\<in>set (w_thread_results st). is_std_map p"
  shows "adds [] st st"
  using assms by (simp add: adds_def)

lemma adds_trans:
  assumes "adds rs st st'" "adds rs' st' st''"
  shows "adds (rs @ rs') st st''"
  using assms by (auto simp: adds_def contrib_sum_append contrib_names_append)

lemma adds_std: "adds rs st st' \<Longrightarrow> \<forall>p\<in>set (w_thread_results st'). is_std_map p"
  by (simp add: adds_def)

section \<open>One line item\<close>

lemma map_index_hit: "m k \<noteq> None \<Longrightarrow> map_index m k = (the (m k), m)"
  by (auto simp: map_index_def)

lemma process_item_eq:
  assumes closed: "lookups_closed nk vc vs vo"
    and st: "w_valid_customers st = vc" "w_nation_key_to_name st = nk"
    and tid: "thread_id < length (w_thread_results st)"
  shows "process_item stod vo vs thread_id item st
         = bindE (item_revenue stod nk vc vs vo item)
             (\<lambda>r. Inr (st\<lparr>w_thread_results := (w_thread_results st)
                      [thread_id := add_contribution r (w_thread_results st ! thread_id)]\<rparr>))"
proof (cases "map_at item ''l_orderkey''")
  case (Inl e)
  then show ?thesis by (simp add: process_item_def item_revenue_def)
next
  case ok: (Inr o_key)
  show ?thesis
  proof (cases "map_at item ''l_suppkey''")
    case (Inl e)
    then show ?thesis using ok by (simp add: process_item_def item_revenue_def)
  next
    case sk: (Inr s_key)
    show ?thesis
    proof (cases "vo o_key")
      case None
      then show ?thesis using ok sk
        by (simp add: process_item_def item_revenue_def add_contribution_def)
    next
      case c: (Some c_key)
      show ?thesis
      proof (cases "vs s_key")
        case None
        then show ?thesis using ok sk c
          by (simp add: process_item_def item_revenue_def add_contribution_def)
      next
        case s: (Some s_nation)
        have "vc c_key \<noteq> None" using closed c by (simp add: lookups_closed_def)
        then have mc: "map_index vc c_key = (the (vc c_key), vc)" by (rule map_index_hit)
        have "nk s_nation \<noteq> None" using closed s by (simp add: lookups_closed_def)
        then have mn: "map_index nk s_nation = (the (nk s_nation), nk)" by (rule map_index_hit)
        have same: "st\<lparr>w_valid_customers := vc\<rparr> = st" using st by simp
        show ?thesis
        proof (cases "the (vc c_key) = s_nation")
          case False
          then show ?thesis using ok sk c s mc st same
            by (simp add: process_item_def item_revenue_def add_contribution_def)
        next
          case True
          show ?thesis
          proof (cases "bindE (map_at item ''l_extendedprice'') stod")
            case (Inl e)
            then show ?thesis using ok sk c s mc st True
              by (simp add: process_item_def item_revenue_def)
          next
            case p: (Inr price)
            show ?thesis
            proof (cases "bindE (map_at item ''l_discount'') stod")
              case (Inl e)
              then show ?thesis using ok sk c s mc st True p
                by (simp add: process_item_def item_revenue_def)
            next
              case d: (Inr discount)
              have "st\<lparr>w_valid_customers := vc, w_nation_key_to_name := nk,
                       w_thread_results := (w_thread_results st)
                         [thread_id := accum_add (the (nk s_nation)) (price * (1 - discount))
                                         (w_thread_results st ! thread_id)]\<rparr>
                    = st\<lparr>w_thread_results := (w_thread_results st)
                         [thread_id := accum_add (the (nk s_nation)) (price * (1 - discount))
                                         (w_thread_results st ! thread_id)]\<rparr>"
                using st by simp
              then show ?thesis using ok sk c s mc mn st True p d tid
                by (simp add: process_item_def item_revenue_def add_contribution_def)
            qed
          qed
        qed
      qed
    qed
  qed
qed

section \<open>The workers as one scan\<close>

lemma foldE_map: "foldE f (map g xs) s = foldE (\<lambda>x. f (g x)) xs s"
proof (induction xs arbitrary: s)
  case Nil
  show ?case by simp
next
  case (Cons x xs)
  show ?case by (cases "f (g x) s") (simp_all add: Cons.IH)
qed

lemma foldE_concat: "foldE f (concat xss) s = foldE (\<lambda>xs. foldE f xs) xss s"
proof (induction xss arbitrary: s)
  case Nil
  show ?case by simp
next
  case (Cons xs xss)
  show ?case by (cases "foldE f xs s") (simp_all add: foldE_append Cons.IH)
qed

lemma run_threads_flat:
  "run_threads stod vo vs items N st
   = foldE (worker_body stod vo vs items) (thread_items (length items) N) st"
  unfolding run_threads_def thread_items_def foldE_concat foldE_map worker_def worker_body_def
  by (simp add: case_prod_beta)

lemma thread_items_snd:
  assumes "1 \<le> N"
  shows "map snd (thread_items M N) = [0..<M]"
proof -
  have "map snd (thread_items M N)
        = concat (map (\<lambda>i. [fst (chunk_bounds M N i)..<snd (chunk_bounds M N i)]) [0..<N])"
    by (simp add: thread_items_def map_concat comp_def)
  then show ?thesis using concat_chunk_bounds [OF assms] by simp
qed

lemma thread_items_fst: "p \<in> set (thread_items M N) \<Longrightarrow> fst p < N"
  by (auto simp: thread_items_def)

lemma mapE_map: "mapE f (map g xs) = mapE (\<lambda>x. f (g x)) xs"
  by (induction xs) simp_all

lemma scan_pairs:
  assumes closed: "lookups_closed nk vc vs vo"
    and st: "w_valid_customers st = vc" "w_nation_key_to_name st = nk"
    and std: "\<forall>p\<in>set (w_thread_results st). is_std_map p"
    and ps: "\<forall>p\<in>set ps. fst p < length (w_thread_results st) \<and> snd p < length items"
  shows "case mapE (\<lambda>p. item_revenue stod nk vc vs vo (items ! snd p)) ps of
           Inl e \<Rightarrow> foldE (worker_body stod vo vs items) ps st = Inl e
         | Inr rs \<Rightarrow> \<exists>st'. foldE (worker_body stod vo vs items) ps st = Inr st' \<and> adds rs st st'"
  using st std ps
proof (induction ps arbitrary: st)
  case Nil
  then show ?case by (simp add: adds_Nil)
next
  case (Cons p ps)
  let ?trs = "w_thread_results st"
  have p: "fst p < length ?trs" "snd p < length items" using Cons.prems(4) by simp_all
  have body: "worker_body stod vo vs items p st
              = bindE (item_revenue stod nk vc vs vo (items ! snd p))
                  (\<lambda>r. Inr (st\<lparr>w_thread_results :=
                           ?trs[fst p := add_contribution r (?trs ! fst p)]\<rparr>))"
    using p(2) process_item_eq [OF closed Cons.prems(1,2) p(1)]
    by (simp add: worker_body_def vec_at_def)
  show ?case
  proof (cases "item_revenue stod nk vc vs vo (items ! snd p)")
    case (Inl e)
    then show ?thesis using body by simp
  next
    case (Inr r)
    let ?st1 = "st\<lparr>w_thread_results := ?trs[fst p := add_contribution r (?trs ! fst p)]\<rparr>"
    have a1: "adds [r] st ?st1" by (rule adds_step [OF p(1) Cons.prems(3)])
    have pre: "w_valid_customers ?st1 = vc" "w_nation_key_to_name ?st1 = nk"
      "\<forall>q\<in>set (w_thread_results ?st1). is_std_map q"
      "\<forall>q\<in>set ps. fst q < length (w_thread_results ?st1) \<and> snd q < length items"
      using Cons.prems adds_std [OF a1] by simp_all
    note IH = Cons.IH [OF pre]
    show ?thesis
    proof (cases "mapE (\<lambda>p. item_revenue stod nk vc vs vo (items ! snd p)) ps")
      case (Inl e)
      then show ?thesis using IH Inr body by simp
    next
      case rs: (Inr rs)
      with IH obtain st' where st': "foldE (worker_body stod vo vs items) ps ?st1 = Inr st'"
        "adds rs ?st1 st'" by auto
      have "adds (r # rs) st st'" using adds_trans [OF a1 st'(2)] by simp
      then show ?thesis using Inr rs body st'(1) by simp
    qed
  qed
qed

lemma run_threads_scan:
  assumes closed: "lookups_closed nk vc vs vo" and N: "1 \<le> N"
  shows "case mapE (item_revenue stod nk vc vs vo) items of
           Inl e \<Rightarrow> run_threads stod vo vs items N
                      \<lparr>w_valid_customers = vc, w_nation_key_to_name = nk,
                       w_thread_results = replicate N []\<rparr> = Inl e
         | Inr rs \<Rightarrow> \<exists>st'. run_threads stod vo vs items N
                      \<lparr>w_valid_customers = vc, w_nation_key_to_name = nk,
                       w_thread_results = replicate N []\<rparr> = Inr st'
                    \<and> adds rs \<lparr>w_valid_customers = vc, w_nation_key_to_name = nk,
                               w_thread_results = replicate N []\<rparr> st'"
proof -
  let ?st = "\<lparr>w_valid_customers = vc, w_nation_key_to_name = nk, w_thread_results = replicate N []\<rparr>"
  let ?ps = "thread_items (length items) N"
  have idx: "map snd ?ps = [0..<length items]" by (rule thread_items_snd [OF N])
  have "mapE (\<lambda>p. item_revenue stod nk vc vs vo (items ! snd p)) ?ps
        = mapE (\<lambda>j. item_revenue stod nk vc vs vo (items ! j)) (map snd ?ps)"
    by (simp add: mapE_map)
  also have "\<dots> = mapE (item_revenue stod nk vc vs vo) (map (\<lambda>j. items ! j) [0..<length items])"
    unfolding idx by (simp add: mapE_map)
  also have "\<dots> = mapE (item_revenue stod nk vc vs vo) items"
    by (simp add: map_nth)
  finally have eq: "mapE (\<lambda>p. item_revenue stod nk vc vs vo (items ! snd p)) ?ps
                    = mapE (item_revenue stod nk vc vs vo) items" .
  have std: "\<forall>p\<in>set (w_thread_results ?st). is_std_map p" by (simp add: is_std_map_def)
  have ps: "\<forall>p\<in>set ?ps. fst p < length (w_thread_results ?st) \<and> snd p < length items"
  proof
    fix p assume p: "p \<in> set ?ps"
    then have "snd p \<in> set (map snd ?ps)" by (metis image_eqI set_map)
    then have "snd p < length items" unfolding idx by simp
    then show "fst p < length (w_thread_results ?st) \<and> snd p < length items"
      using thread_items_fst [OF p] by simp
  qed
  from scan_pairs [OF closed _ _ std ps, of stod] show ?thesis
    unfolding eq run_threads_flat by simp
qed

section \<open>The merge\<close>

lemma merge_one:
  "fold (\<lambda>pair r. accum_add (fst pair) (snd pair) r) p res = fold add_contribution (map Some p) res"
  by (induction p arbitrary: res) (simp_all add: add_contribution_def case_prod_beta)

lemma contrib_names_Some: "contrib_names (map Some p) = fst ` set p"
  by (force simp: contrib_names_def)

lemma contrib_sum_std: "is_std_map p \<Longrightarrow> contrib_sum (map Some p) k = total p k"
proof (induction p)
  case Nil
  show ?case by (simp add: total_def)
next
  case (Cons q p)
  obtain k0 v0 where q: "q = (k0, v0)" by (cases q)
  have tail: "is_std_map p" using Cons.prems by (auto simp: is_std_map_def)
  have IH: "contrib_sum (map Some p) k = total p k" by (rule Cons.IH [OF tail])
  have split: "contrib_sum (map Some (q # p)) k = (if k0 = k then v0 else 0) + contrib_sum (map Some p) k"
    by (simp add: contrib_sum_def q)
  show ?case
  proof (cases "k0 = k")
    case True
    have "map_of p k = None" using std_map_of_None [of k0 v0 p k] Cons.prems True by (simp add: q)
    then have "total p k = 0" by (simp add: total_def)
    then show ?thesis using split IH True by (simp add: total_def q)
  next
    case False
    then show ?thesis using split IH by (auto simp: total_def q)
  qed
qed

lemma merge_results_Cons:
  "merge_results (p # trs) results = merge_results trs (fold add_contribution (map Some p) results)"
  by (simp add: merge_results_def merge_one)

lemma merge_results_std:
  assumes "is_std_map results"
  shows "is_std_map (merge_results trs results)"
  using assms
proof (induction trs arbitrary: results)
  case Nil
  then show ?case by (simp add: merge_results_def)
next
  case (Cons p trs)
  have "is_std_map (fold add_contribution (map Some p) results)"
    using Cons.prems by (rule fold_add_contribution(1))
  then show ?case unfolding merge_results_Cons by (rule Cons.IH)
qed

lemma merge_results_keys:
  assumes "is_std_map results"
  shows "fst ` set (merge_results trs results) = fst ` set results \<union> all_keys trs"
  using assms
proof (induction trs arbitrary: results)
  case Nil
  then show ?case by (simp add: merge_results_def all_keys_def)
next
  case (Cons p trs)
  let ?r1 = "fold add_contribution (map Some p) results"
  have r1: "is_std_map ?r1" using Cons.prems by (rule fold_add_contribution(1))
  have "fst ` set ?r1 = fst ` set results \<union> fst ` set p"
    using fold_add_contribution(2) [OF Cons.prems, of "map Some p"] by (simp add: contrib_names_Some)
  then show ?case unfolding merge_results_Cons Cons.IH [OF r1]
    by (simp add: all_keys_def Un_assoc)
qed

lemma merge_results_total:
  assumes "is_std_map results" "\<forall>p\<in>set trs. is_std_map p"
  shows "total (merge_results trs results) k = total results k + grand_total trs k"
  using assms
proof (induction trs arbitrary: results)
  case Nil
  then show ?case by (simp add: merge_results_def grand_total_def)
next
  case (Cons p trs)
  let ?r1 = "fold add_contribution (map Some p) results"
  have r1: "is_std_map ?r1" using Cons.prems(1) by (rule fold_add_contribution(1))
  have p: "is_std_map p" and rest: "\<forall>q\<in>set trs. is_std_map q" using Cons.prems(2) by simp_all
  have "total ?r1 k = total results k + total p k"
    using fold_add_contribution(3) [OF Cons.prems(1), of "map Some p" k] contrib_sum_std [OF p, of k]
    by simp
  then show ?case unfolding merge_results_Cons Cons.IH [OF r1 rest]
    by (simp add: grand_total_def)
qed

lemma grand_total_replicate [simp]: "grand_total (replicate N []) k = 0"
  by (induction N) (simp_all add: grand_total_def total_def)

lemma all_keys_replicate [simp]: "all_keys (replicate N []) = {}"
  by (simp add: all_keys_def)

lemma merge_after_adds:
  assumes "is_std_map results"
    and "adds rs \<lparr>w_valid_customers = vc, w_nation_key_to_name = nk,
                  w_thread_results = replicate N []\<rparr> st'"
  shows "merge_results (w_thread_results st') results = fold add_contribution rs results"
proof (rule std_map_unique)
  let ?trs = "w_thread_results st'"
  have std: "\<forall>p\<in>set ?trs. is_std_map p" using assms(2) by (rule adds_std)
  have gt: "\<And>k. grand_total ?trs k = contrib_sum rs k" and ak: "all_keys ?trs = contrib_names rs"
    using assms(2) by (simp_all add: adds_def)
  show "is_std_map (merge_results ?trs results)"
    by (rule merge_results_std [OF assms(1)])
  show "is_std_map (fold add_contribution rs results)"
    by (rule fold_add_contribution(1) [OF assms(1)])
  show "fst ` set (merge_results ?trs results) = fst ` set (fold add_contribution rs results)"
    by (simp add: merge_results_keys [OF assms(1)] fold_add_contribution(2) [OF assms(1)] ak)
  show "\<And>k. total (merge_results ?trs results) k = total (fold add_contribution rs results) k"
    by (simp add: merge_results_total [OF assms(1) std] fold_add_contribution(3) [OF assms(1)] gt)
qed

lemma join_aggregate_scan:
  assumes closed: "lookups_closed nk vc vs vo" and std: "is_std_map results" and N: "1 \<le> N"
  shows "join_aggregate stod N items results (nk, vc, vs, vo)
         = bindE (mapE (item_revenue stod nk vc vs vo) items)
             (\<lambda>rs. Inr (True, fold add_contribution rs results))"
proof -
  have n: "1 \<le> nat N" using N by simp
  note scan = run_threads_scan [OF closed n, of stod items]
  show ?thesis
  proof (cases "mapE (item_revenue stod nk vc vs vo) items")
    case (Inl e)
    then show ?thesis using scan N by (simp add: join_aggregate_def)
  next
    case (Inr rs)
    with scan obtain st' where st': "run_threads stod vo vs items (nat N)
          \<lparr>w_valid_customers = vc, w_nation_key_to_name = nk,
           w_thread_results = replicate (nat N) []\<rparr> = Inr st'"
       "adds rs \<lparr>w_valid_customers = vc, w_nation_key_to_name = nk,
                 w_thread_results = replicate (nat N) []\<rparr> st'"
      by auto
    from merge_after_adds [OF std st'(2)] show ?thesis
      using Inr st'(1) N by (simp add: join_aggregate_def)
  qed
qed

section \<open>The worked data set, evaluated\<close>

lemma stod_ex:
  "stod_decimal ''100.0'' = Inr 100" "stod_decimal ''0.5'' = Inr (1/2)"
  "stod_decimal ''250.0'' = Inr 250" "stod_decimal ''0.2'' = Inr (1/5)"
  "stod_decimal ''10.0'' = Inr 10" "stod_decimal ''0.0'' = Inr 0"
  "stod_decimal ''abc'' = Inl InvalidArgument"
  by (simp_all add: stod_decimal_def is_digit_def digits_value_def Let_def)

lemma ex_filter:
  "dimension_filter ''TEST'' ''1994-01-01'' ''1995-01-01'' ex_customers ex_orders ex_suppliers
     ex_nations ex_regions
   = Inr ([''1'' \<mapsto> ''A'', ''2'' \<mapsto> ''B'', ''3'' \<mapsto> ''C''],
          [''11'' \<mapsto> ''1'', ''12'' \<mapsto> ''2'', ''13'' \<mapsto> ''3''],
          [''21'' \<mapsto> ''1'', ''22'' \<mapsto> ''2'', ''23'' \<mapsto> ''3''],
          [''101'' \<mapsto> ''11'', ''102'' \<mapsto> ''12'', ''103'' \<mapsto> ''13''])"
  by (simp add: dimension_filter_def ex_customers_def ex_orders_def ex_suppliers_def
      ex_nations_def ex_regions_def region_step_def nation_step_def nation_key_step_def
      customer_step_def supplier_step_def order_step_def map_at_def)






section \<open>The lookup tables in terms of the base tables\<close>

lemma regions_pure:
  assumes "has_columns [''r_regionkey'', ''r_name''] region_data"
  shows "foldE (region_step r_name) region_data ks
         = Inr (ks @ map (\<lambda>r. col r ''r_regionkey'') (filter (\<lambda>r. col r ''r_name'' = r_name) region_data))"
  using assms
proof (induction region_data arbitrary: ks)
  case Nil
  show ?case by simp
next
  case (Cons r rs)
  have r: "r ''r_regionkey'' \<noteq> None" "r ''r_name'' \<noteq> None" and rs: "has_columns [''r_regionkey'', ''r_name''] rs"
    using Cons.prems by (simp_all add: has_columns_def)
  show ?case using Cons.IH [OF rs] r by (simp add: region_step_def map_at_col)
qed

lemma nation_key_step_pure:
  assumes "n ''n_nationkey'' \<noteq> None" "n ''n_name'' \<noteq> None" "n ''n_regionkey'' \<noteq> None"
  shows "nation_key_step n k m
         = Inr (if col n ''n_regionkey'' = k
                then m(col n ''n_nationkey'' \<mapsto> col n ''n_name'') else m)"
  using assms by (simp add: nation_key_step_def map_at_col)

lemma nation_key_steps:
  assumes "n ''n_nationkey'' \<noteq> None" "n ''n_name'' \<noteq> None" "n ''n_regionkey'' \<noteq> None"
  shows "foldE (nation_key_step n) ks m
         = Inr (if col n ''n_regionkey'' \<in> set ks
                then m(col n ''n_nationkey'' \<mapsto> col n ''n_name'') else m)"
proof (induction ks arbitrary: m)
  case Nil
  show ?case by simp
next
  case (Cons k ks)
  let ?m1 = "if col n ''n_regionkey'' = k then m(col n ''n_nationkey'' \<mapsto> col n ''n_name'') else m"
  have "foldE (nation_key_step n) (k # ks) m = foldE (nation_key_step n) ks ?m1"
    by (simp only: foldE.simps nation_key_step_pure [OF assms] bindE_Inr)
  also have "\<dots> = Inr (if col n ''n_regionkey'' \<in> set ks
                then ?m1(col n ''n_nationkey'' \<mapsto> col n ''n_name'') else ?m1)"
    by (rule Cons.IH)
  also have "\<dots> = Inr (if col n ''n_regionkey'' \<in> set (k # ks)
                then m(col n ''n_nationkey'' \<mapsto> col n ''n_name'') else m)"
    by auto
  finally show ?case .
qed

lemma nations_pure:
  assumes "has_columns [''n_nationkey'', ''n_name'', ''n_regionkey''] nation_data"
  shows "foldE (nation_step ks) nation_data m
         = Inr (fold (cond_insert (\<lambda>n. col n ''n_regionkey'' \<in> set ks) ''n_nationkey'' ''n_name'')
                  nation_data m)"
proof (rule foldE_pure)
  fix n m assume "n \<in> set nation_data"
  with assms have "n ''n_nationkey'' \<noteq> None" "n ''n_name'' \<noteq> None" "n ''n_regionkey'' \<noteq> None"
    by (auto dest: has_columnsD)
  from nation_key_steps [OF this]
  show "nation_step ks n m
        = Inr (cond_insert (\<lambda>n. col n ''n_regionkey'' \<in> set ks) ''n_nationkey'' ''n_name'' n m)"
    by (simp add: nation_step_def cond_insert_def)
qed

lemma customers_pure:
  assumes "has_columns [''c_custkey'', ''c_nationkey''] customer_data"
  shows "foldE (customer_step nk) customer_data m
         = Inr (fold (cond_insert (\<lambda>c. col c ''c_nationkey'' \<in> dom nk) ''c_custkey'' ''c_nationkey'')
                  customer_data m)"
proof (rule foldE_pure)
  fix c m assume "c \<in> set customer_data"
  with assms have "c ''c_custkey'' \<noteq> None" "c ''c_nationkey'' \<noteq> None"
    by (auto dest: has_columnsD)
  then show "customer_step nk c m
        = Inr (cond_insert (\<lambda>c. col c ''c_nationkey'' \<in> dom nk) ''c_custkey'' ''c_nationkey'' c m)"
    by (auto simp: customer_step_def cond_insert_def map_at_col)
qed

lemma suppliers_pure:
  assumes "has_columns [''s_suppkey'', ''s_nationkey''] supplier_data"
  shows "foldE (supplier_step nk) supplier_data m
         = Inr (fold (cond_insert (\<lambda>s. col s ''s_nationkey'' \<in> dom nk) ''s_suppkey'' ''s_nationkey'')
                  supplier_data m)"
proof (rule foldE_pure)
  fix c m assume "c \<in> set supplier_data"
  with assms have "c ''s_suppkey'' \<noteq> None" "c ''s_nationkey'' \<noteq> None"
    by (auto dest: has_columnsD)
  then show "supplier_step nk c m
        = Inr (cond_insert (\<lambda>s. col s ''s_nationkey'' \<in> dom nk) ''s_suppkey'' ''s_nationkey'' c m)"
    by (auto simp: supplier_step_def cond_insert_def map_at_col)
qed

lemma fold_cond_insert_key:
  assumes "unique_key key rows"
  shows "fold (cond_insert P key val) rows Map.empty k = Some v
         \<longleftrightarrow> (\<exists>r\<in>set rows. P r \<and> col r key = k \<and> col r val = v)"
proof
  assume "fold (cond_insert P key val) rows Map.empty k = Some v"
  from fold_cond_insert_Some [OF this]
  show "\<exists>r\<in>set rows. P r \<and> col r key = k \<and> col r val = v" by simp
next
  assume "\<exists>r\<in>set rows. P r \<and> col r key = k \<and> col r val = v"
  then obtain r where r: "r \<in> set rows" "P r" "col r key = k" "col r val = v" by blast
  have inj: "inj_on (\<lambda>r. col r key) (set rows)"
    using assms by (simp add: unique_key_def distinct_map)
  have "\<forall>r'\<in>set rows. P r' \<and> col r' key = k \<longrightarrow> col r' val = v"
  proof (intro ballI impI)
    fix r' assume "r' \<in> set rows" "P r' \<and> col r' key = k"
    then have "r' = r" using inj r(1,3) by (auto dest: inj_onD)
    then show "col r' val = v" using r(4) by simp
  qed
  moreover have "\<exists>r\<in>set rows. P r \<and> col r key = k" using r by blast
  ultimately show "fold (cond_insert P key val) rows Map.empty k = Some v"
    by (rule fold_cond_insert_unique [rotated])
qed

lemma dimension_filter_pure:
  assumes "well_formed customer_data orders_data lineitem_data supplier_data nation_data region_data"
  shows "dimension_filter r_name start_date end_date customer_data orders_data supplier_data
           nation_data region_data
         = Inr (nation_name_by_key r_name nation_data region_data,
                cust_nation_by_key (nation_name_by_key r_name nation_data region_data) customer_data,
                supp_nation_by_key (nation_name_by_key r_name nation_data region_data) supplier_data,
                order_cust_by_key start_date end_date
                  (cust_nation_by_key (nation_name_by_key r_name nation_data region_data) customer_data)
                  orders_data)"
proof -
  have c: "has_columns [''c_custkey'', ''c_nationkey''] customer_data"
    and o: "has_columns [''o_orderkey'', ''o_custkey'', ''o_orderdate''] orders_data"
    and s: "has_columns [''s_suppkey'', ''s_nationkey''] supplier_data"
    and n: "has_columns [''n_nationkey'', ''n_name'', ''n_regionkey''] nation_data"
    and r: "has_columns [''r_regionkey'', ''r_name''] region_data"
    using assms by (simp_all add: well_formed_def)
  show ?thesis
    unfolding dimension_filter_def regions_pure [OF r] nations_pure [OF n] customers_pure [OF c]
      suppliers_pure [OF s] orders_pure [OF o] bindE_Inr
    by (simp add: nation_name_by_key_def cust_nation_by_key_def supp_nation_by_key_def
        order_cust_by_key_def valid_region_key_list_def)
qed

lemma qualifies_lookups:
  assumes uo: "unique_key ''o_orderkey'' orders_data"
    and uc: "unique_key ''c_custkey'' customer_data"
    and us: "unique_key ''s_suppkey'' supplier_data"
    and un: "unique_key ''n_nationkey'' nation_data"
    and nk: "nk = nation_name_by_key r_name nation_data region_data"
    and vc: "vc = cust_nation_by_key nk customer_data"
    and vs: "vs = supp_nation_by_key nk supplier_data"
    and vo: "vo = order_cust_by_key start_date end_date vc orders_data"
  shows "qualifies r_name start_date end_date customer_data orders_data supplier_data nation_data
           region_data item k
         \<longleftrightarrow> (\<exists>ck sn. vo (col item ''l_orderkey'') = Some ck \<and> vs (col item ''l_suppkey'') = Some sn
                      \<and> vc ck = Some sn \<and> nk sn = Some k)"
proof -
  have nk_iff: "\<And>a v. nk a = Some v \<longleftrightarrow>
      (\<exists>n\<in>set nation_data. col n ''n_regionkey'' \<in> set (valid_region_key_list r_name region_data)
          \<and> col n ''n_nationkey'' = a \<and> col n ''n_name'' = v)"
    unfolding nk nation_name_by_key_def by (rule fold_cond_insert_key [OF un])
  have vc_iff: "\<And>a v. vc a = Some v \<longleftrightarrow>
      (\<exists>c\<in>set customer_data. col c ''c_nationkey'' \<in> dom nk
          \<and> col c ''c_custkey'' = a \<and> col c ''c_nationkey'' = v)"
    unfolding vc cust_nation_by_key_def by (rule fold_cond_insert_key [OF uc])
  have vs_iff: "\<And>a v. vs a = Some v \<longleftrightarrow>
      (\<exists>s\<in>set supplier_data. col s ''s_nationkey'' \<in> dom nk
          \<and> col s ''s_suppkey'' = a \<and> col s ''s_nationkey'' = v)"
    unfolding vs supp_nation_by_key_def by (rule fold_cond_insert_key [OF us])
  have vo_iff: "\<And>a v. vo a = Some v \<longleftrightarrow>
      (\<exists>ord\<in>set orders_data. order_selected start_date end_date vc ord
          \<and> col ord ''o_orderkey'' = a \<and> col ord ''o_custkey'' = v)"
    unfolding vo order_cust_by_key_def by (rule fold_cond_insert_key [OF uo])
  have region_iff: "\<And>a. a \<in> set (valid_region_key_list r_name region_data) \<longleftrightarrow>
      (\<exists>r\<in>set region_data. col r ''r_name'' = r_name \<and> col r ''r_regionkey'' = a)"
    by (auto simp: valid_region_key_list_def)
  show ?thesis
  proof
    assume "qualifies r_name start_date end_date customer_data orders_data supplier_data nation_data
             region_data item k"
    then obtain ord c s n r where
      rows: "ord \<in> set orders_data" "c \<in> set customer_data" "s \<in> set supplier_data"
            "n \<in> set nation_data" "r \<in> set region_data"
      and j: "col ord ''o_orderkey'' = col item ''l_orderkey''"
             "col ord ''o_orderdate'' \<ge> start_date" "col ord ''o_orderdate'' < end_date"
             "col c ''c_custkey'' = col ord ''o_custkey''"
             "col s ''s_suppkey'' = col item ''l_suppkey''"
             "col c ''c_nationkey'' = col s ''s_nationkey''"
             "col n ''n_nationkey'' = col s ''s_nationkey''"
             "col r ''r_regionkey'' = col n ''n_regionkey''"
             "col r ''r_name'' = r_name" "col n ''n_name'' = k"
      unfolding qualifies_def by blast
    have "col n ''n_regionkey'' \<in> set (valid_region_key_list r_name region_data)"
      unfolding region_iff using rows(5) j(8,9) by blast
    with rows(4) j(7,10) have nk1: "nk (col s ''s_nationkey'') = Some k"
      unfolding nk_iff by blast
    then have indom: "col s ''s_nationkey'' \<in> dom nk" by blast
    from rows(3) j(5) indom have vs1: "vs (col item ''l_suppkey'') = Some (col s ''s_nationkey'')"
      unfolding vs_iff by blast
    from indom j(6) have "col c ''c_nationkey'' \<in> dom nk" by simp
    with rows(2) j(4,6) have vc1: "vc (col ord ''o_custkey'') = Some (col s ''s_nationkey'')"
      unfolding vc_iff by blast
    then have "order_selected start_date end_date vc ord"
      using j(2,3) by (simp add: order_selected_def domI)
    with rows(1) j(1) have vo1: "vo (col item ''l_orderkey'') = Some (col ord ''o_custkey'')"
      unfolding vo_iff by blast
    from vo1 vs1 vc1 nk1
    show "\<exists>ck sn. vo (col item ''l_orderkey'') = Some ck \<and> vs (col item ''l_suppkey'') = Some sn
                        \<and> vc ck = Some sn \<and> nk sn = Some k" by blast
  next
    assume "\<exists>ck sn. vo (col item ''l_orderkey'') = Some ck \<and> vs (col item ''l_suppkey'') = Some sn
                        \<and> vc ck = Some sn \<and> nk sn = Some k"
    then obtain ck sn where l: "vo (col item ''l_orderkey'') = Some ck"
      "vs (col item ''l_suppkey'') = Some sn" "vc ck = Some sn" "nk sn = Some k" by blast
    from l(1) obtain ord where ord: "ord \<in> set orders_data" "order_selected start_date end_date vc ord"
      "col ord ''o_orderkey'' = col item ''l_orderkey''" "col ord ''o_custkey'' = ck"
      unfolding vo_iff by blast
    from l(2) obtain s where s: "s \<in> set supplier_data"
      "col s ''s_suppkey'' = col item ''l_suppkey''" "col s ''s_nationkey'' = sn"
      unfolding vs_iff by blast
    from l(3) obtain c where c: "c \<in> set customer_data"
      "col c ''c_custkey'' = ck" "col c ''c_nationkey'' = sn"
      unfolding vc_iff by blast
    from l(4) obtain n where n: "n \<in> set nation_data"
      "col n ''n_regionkey'' \<in> set (valid_region_key_list r_name region_data)"
      "col n ''n_nationkey'' = sn" "col n ''n_name'' = k"
      unfolding nk_iff by blast
    from n(2) obtain r where r: "r \<in> set region_data" "col r ''r_name'' = r_name"
      "col r ''r_regionkey'' = col n ''n_regionkey''"
      unfolding region_iff by blast
    have w: "col ord ''o_orderdate'' \<ge> start_date" "col ord ''o_orderdate'' < end_date"
      using ord(2) by (simp_all add: order_selected_def)
    show "qualifies r_name start_date end_date customer_data orders_data supplier_data nation_data
             region_data item k"
      unfolding qualifies_def
    proof (intro bexI conjI)
      show "ord \<in> set orders_data" "c \<in> set customer_data" "s \<in> set supplier_data"
        "n \<in> set nation_data" "r \<in> set region_data" by fact+
      show "col ord ''o_orderkey'' = col item ''l_orderkey''" by fact
      show "col ord ''o_orderdate'' \<ge> start_date" "col ord ''o_orderdate'' < end_date" by fact+
      show "col c ''c_custkey'' = col ord ''o_custkey''" using c(2) ord(4) by simp
      show "col s ''s_suppkey'' = col item ''l_suppkey''" by fact
      show "col c ''c_nationkey'' = col s ''s_nationkey''" using c(3) s(3) by simp
      show "col n ''n_nationkey'' = col s ''s_nationkey''" using n(3) s(3) by simp
      show "col r ''r_regionkey'' = col n ''n_regionkey''" by fact
      show "col r ''r_name'' = r_name" by fact
      show "col n ''n_name'' = k" by fact
    qed
  qed
qed

section \<open>One line item against the specification\<close>

lemma item_revenue_hit:
  assumes cols: "item ''l_orderkey'' \<noteq> None" "item ''l_suppkey'' \<noteq> None"
      "item ''l_extendedprice'' \<noteq> None" "item ''l_discount'' \<noteq> None"
    and l: "vo (col item ''l_orderkey'') = Some ck" "vs (col item ''l_suppkey'') = Some sn"
      "vc ck = Some sn" "nk sn = Some k"
  shows "item_revenue stod nk vc vs vo item
         = bindE (stod (col item ''l_extendedprice'')) (\<lambda>price.
           bindE (stod (col item ''l_discount'')) (\<lambda>discount.
             Inr (Some (k, price * (1 - discount)))))"
  using cols l by (simp add: item_revenue_def map_at_col map_index_def)

lemma item_revenue_miss:
  assumes cols: "item ''l_orderkey'' \<noteq> None" "item ''l_suppkey'' \<noteq> None"
    and closed: "lookups_closed nk vc vs vo"
    and l: "\<not> (\<exists>ck sn k. vo (col item ''l_orderkey'') = Some ck \<and> vs (col item ''l_suppkey'') = Some sn
             \<and> vc ck = Some sn \<and> nk sn = Some k)"
  shows "item_revenue stod nk vc vs vo item = Inr None"
proof (cases "vo (col item ''l_orderkey'')")
  case None
  then show ?thesis using cols by (simp add: item_revenue_def map_at_col)
next
  case c: (Some ck)
  show ?thesis
  proof (cases "vs (col item ''l_suppkey'')")
    case None
    then show ?thesis using cols c by (simp add: item_revenue_def map_at_col)
  next
    case s: (Some sn)
    have "vc ck \<noteq> None" using closed c by (simp add: lookups_closed_def)
    then obtain cn where cn: "vc ck = Some cn" by blast
    have "nk sn \<noteq> None" using closed s by (simp add: lookups_closed_def)
    then obtain k where k: "nk sn = Some k" by blast
    have "cn \<noteq> sn" using l c s cn k by blast
    then show ?thesis using cols c s cn by (simp add: item_revenue_def map_at_col map_index_def)
  qed
qed

lemma item_spec_fault:
  assumes hit: "\<forall>k. Q k \<longrightarrow> g = bindE (stod (col item ''l_extendedprice'')) (\<lambda>price.
                                  bindE (stod (col item ''l_discount'')) (\<lambda>discount.
                                    Inr (Some (k, price * (1 - discount)))))"
    and miss: "(\<forall>k. \<not> Q k) \<longrightarrow> g = Inr None"
  shows "(\<exists>e. g = Inl e) \<longleftrightarrow> (\<exists>k. Q k) \<and> \<not> parses stod item"
proof (cases "\<exists>k. Q k")
  case False
  then show ?thesis using miss by simp
next
  case True
  then obtain k where k: "Q k" by blast
  with hit have g: "g = bindE (stod (col item ''l_extendedprice'')) (\<lambda>price.
                          bindE (stod (col item ''l_discount'')) (\<lambda>discount.
                            Inr (Some (k, price * (1 - discount)))))" by blast
  show ?thesis
  proof (cases "stod (col item ''l_extendedprice'')")
    case (Inl e)
    then show ?thesis using True g by (simp add: parses_def)
  next
    case p: (Inr price)
    show ?thesis
    proof (cases "stod (col item ''l_discount'')")
      case (Inl e)
      then show ?thesis using True g p by (simp add: parses_def)
    next
      case (Inr discount)
      then show ?thesis using True g p by (simp add: parses_def)
    qed
  qed
qed

lemma item_spec_value:
  assumes hit: "\<forall>k. Q k \<longrightarrow> g = bindE (stod (col item ''l_extendedprice'')) (\<lambda>price.
                                  bindE (stod (col item ''l_discount'')) (\<lambda>discount.
                                    Inr (Some (k, price * (1 - discount)))))"
    and miss: "(\<forall>k. \<not> Q k) \<longrightarrow> g = Inr None"
    and one: "\<forall>k k'. Q k \<and> Q k' \<longrightarrow> k = k'"
    and g: "g = Inr r"
  shows "contrib_sum [r] k = (if Q k then revenue stod item else 0)"
    and "contrib_names [r] = {k. Q k}"
proof -
  have "contrib_sum [r] k = (if Q k then revenue stod item else 0) \<and> contrib_names [r] = {k. Q k}"
  proof (cases "\<exists>k. Q k")
    case False
    then have "r = None" using miss g by simp
    then show ?thesis using False by (simp add: contrib_sum_def contrib_names_def)
  next
    case True
    then obtain k0 where k0: "Q k0" by blast
    with hit g have eq: "bindE (stod (col item ''l_extendedprice'')) (\<lambda>price.
                          bindE (stod (col item ''l_discount'')) (\<lambda>discount.
                            Inr (Some (k0, price * (1 - discount))))) = Inr r" by metis
    then obtain price discount where pd: "stod (col item ''l_extendedprice'') = Inr price"
      "stod (col item ''l_discount'') = Inr discount" "r = Some (k0, price * (1 - discount))"
      by (auto simp: bindE_eq_Inr)
    have rev: "revenue stod item = price * (1 - discount)"
      using pd(1,2) by (simp add: revenue_def num_def)
    have only: "\<And>k. Q k \<longleftrightarrow> k = k0" using one k0 by blast
    show ?thesis
      unfolding pd(3) rev only by (auto simp: contrib_sum_def contrib_names_def)
  qed
  then show "contrib_sum [r] k = (if Q k then revenue stod item else 0)"
    and "contrib_names [r] = {k. Q k}" by simp_all
qed

lemma scan_spec_fault:
  assumes "\<forall>item\<in>set items. (\<exists>e. g item = Inl e) \<longleftrightarrow> (\<exists>k. Q item k) \<and> \<not> parses stod item"
  shows "(\<exists>e. mapE g items = Inl e) \<longleftrightarrow> (\<exists>item\<in>set items. (\<exists>k. Q item k) \<and> \<not> parses stod item)"
  using assms
proof (induction items)
  case Nil
  show ?case by simp
next
  case (Cons item items)
  have IH: "(\<exists>e. mapE g items = Inl e) \<longleftrightarrow> (\<exists>item\<in>set items. (\<exists>k. Q item k) \<and> \<not> parses stod item)"
    using Cons by simp
  have hd: "(\<exists>e. g item = Inl e) \<longleftrightarrow> (\<exists>k. Q item k) \<and> \<not> parses stod item"
    using Cons.prems by simp
  show ?case
  proof (cases "g item")
    case (Inl e)
    then show ?thesis using hd by auto
  next
    case (Inr r)
    have "(\<exists>e. mapE g (item # items) = Inl e) \<longleftrightarrow> (\<exists>e. mapE g items = Inl e)"
      using Inr by (cases "mapE g items") simp_all
    then show ?thesis using IH hd Inr by auto
  qed
qed

lemma scan_spec_value:
  assumes "\<forall>item\<in>set items. \<forall>r. g item = Inr r \<longrightarrow>
             (\<forall>k. contrib_sum [r] k = (if Q item k then revenue stod item else 0))
             \<and> contrib_names [r] = {k. Q item k}"
    and "mapE g items = Inr rs"
  shows "contrib_sum rs k = (\<Sum>item\<leftarrow>items. if Q item k then revenue stod item else 0)"
    and "contrib_names rs = {k. \<exists>item\<in>set items. Q item k}"
proof -
  have "contrib_sum rs k = (\<Sum>item\<leftarrow>items. if Q item k then revenue stod item else 0)
        \<and> contrib_names rs = {k. \<exists>item\<in>set items. Q item k}"
    using assms
  proof (induction items arbitrary: rs)
    case Nil
    then show ?case by simp
  next
    case (Cons item items)
    from Cons.prems(2) obtain r rs' where r: "g item = Inr r" "mapE g items = Inr rs'" "rs = r # rs'"
      by (auto simp: bindE_eq_Inr)
    have hd: "contrib_sum [r] k = (if Q item k then revenue stod item else 0)"
      "contrib_names [r] = {k. Q item k}"
      using Cons.prems(1) r(1) by simp_all
    have tl: "contrib_sum rs' k = (\<Sum>item\<leftarrow>items. if Q item k then revenue stod item else 0)"
      "contrib_names rs' = {k. \<exists>item\<in>set items. Q item k}"
      using Cons.IH [OF _ r(2)] Cons.prems(1) by simp_all
    have "contrib_sum rs k = contrib_sum [r] k + contrib_sum rs' k"
      unfolding r(3) using contrib_sum_append [of "[r]" rs' k] by simp
    moreover have "contrib_names rs = contrib_names [r] \<union> contrib_names rs'"
      unfolding r(3) using contrib_names_append [of "[r]" rs'] by simp
    ultimately show ?case unfolding hd tl by auto
  qed
  then show "contrib_sum rs k = (\<Sum>item\<leftarrow>items. if Q item k then revenue stod item else 0)"
    and "contrib_names rs = {k. \<exists>item\<in>set items. Q item k}" by simp_all
qed

section \<open>The scan against the specification\<close>

lemma query5_scan:
  assumes wf: "well_formed customer_data orders_data lineitem_data supplier_data nation_data region_data"
    and uo: "unique_key ''o_orderkey'' orders_data"
    and uc: "unique_key ''c_custkey'' customer_data"
    and us: "unique_key ''s_suppkey'' supplier_data"
    and un: "unique_key ''n_nationkey'' nation_data"
    and nk: "nk = nation_name_by_key r_name nation_data region_data"
    and vc: "vc = cust_nation_by_key nk customer_data"
    and vs: "vs = supp_nation_by_key nk supplier_data"
    and vo: "vo = order_cust_by_key start_date end_date vc orders_data"
  shows "dimension_filter r_name start_date end_date customer_data orders_data supplier_data
           nation_data region_data = Inr (nk, vc, vs, vo)"
    and "lookups_closed nk vc vs vo"
    and "(\<exists>e. mapE (item_revenue stod nk vc vs vo) lineitem_data = Inl e) \<longleftrightarrow>
              (\<exists>item\<in>set lineitem_data.
                 (\<exists>k. qualifies r_name start_date end_date customer_data orders_data supplier_data
                        nation_data region_data item k) \<and> \<not> parses stod item)"
    and "\<And>rs k. mapE (item_revenue stod nk vc vs vo) lineitem_data = Inr rs \<Longrightarrow>
              contrib_sum rs k
                    = (\<Sum>item\<leftarrow>lineitem_data.
                         if qualifies r_name start_date end_date customer_data orders_data
                              supplier_data nation_data region_data item k
                         then revenue stod item else 0)"
    and "\<And>rs. mapE (item_revenue stod nk vc vs vo) lineitem_data = Inr rs \<Longrightarrow>
              contrib_names rs
                  = {k. \<exists>item\<in>set lineitem_data.
                          qualifies r_name start_date end_date customer_data orders_data
                            supplier_data nation_data region_data item k}"
proof -
  define Q where "Q = qualifies r_name start_date end_date customer_data orders_data supplier_data
                        nation_data region_data"
  define g where "g = item_revenue stod nk vc vs vo"
  have flt: "dimension_filter r_name start_date end_date customer_data orders_data supplier_data
             nation_data region_data = Inr (nk, vc, vs, vo)"
    unfolding nk vc vs vo by (rule dimension_filter_pure [OF wf])
  have closed: "lookups_closed nk vc vs vo" using flt by (rule dimension_filter_closed)
  have Q_iff: "\<And>item k. Q item k \<longleftrightarrow>
      (\<exists>ck sn. vo (col item ''l_orderkey'') = Some ck \<and> vs (col item ''l_suppkey'') = Some sn
                      \<and> vc ck = Some sn \<and> nk sn = Some k)"
    unfolding Q_def by (rule qualifies_lookups [OF uo uc us un nk vc vs vo])
  have li: "has_columns [''l_orderkey'', ''l_suppkey'', ''l_extendedprice'', ''l_discount''] lineitem_data"
    using wf by (simp add: well_formed_def)
  have hit: "g item = bindE (stod (col item ''l_extendedprice'')) (\<lambda>price.
                       bindE (stod (col item ''l_discount'')) (\<lambda>discount.
                         Inr (Some (k, price * (1 - discount)))))"
    if "item \<in> set lineitem_data" "Q item k" for item k
  proof -
    have cols: "item ''l_orderkey'' \<noteq> None" "item ''l_suppkey'' \<noteq> None"
      "item ''l_extendedprice'' \<noteq> None" "item ''l_discount'' \<noteq> None"
      using li that(1) by (auto dest: has_columnsD)
    from that(2) obtain ck sn where "vo (col item ''l_orderkey'') = Some ck"
      "vs (col item ''l_suppkey'') = Some sn" "vc ck = Some sn" "nk sn = Some k"
      unfolding Q_iff by blast
    then show ?thesis unfolding g_def by (rule item_revenue_hit [OF cols])
  qed
  have miss: "g item = Inr None" if "item \<in> set lineitem_data" "\<forall>k. \<not> Q item k" for item
  proof -
    have cols: "item ''l_orderkey'' \<noteq> None" "item ''l_suppkey'' \<noteq> None"
      using li that(1) by (auto dest: has_columnsD)
    have "\<not> (\<exists>ck sn k. vo (col item ''l_orderkey'') = Some ck \<and> vs (col item ''l_suppkey'') = Some sn
             \<and> vc ck = Some sn \<and> nk sn = Some k)"
      using that(2) unfolding Q_iff by blast
    then show ?thesis unfolding g_def by (rule item_revenue_miss [OF cols closed])
  qed
  have one: "k = k'" if "Q item k" "Q item k'" for item k k'
    using that unfolding Q_iff by force
  have fault: "\<forall>item\<in>set lineitem_data.
      (\<exists>e. g item = Inl e) \<longleftrightarrow> (\<exists>k. Q item k) \<and> \<not> parses stod item"
  proof
    fix item assume item: "item \<in> set lineitem_data"
    show "(\<exists>e. g item = Inl e) \<longleftrightarrow> (\<exists>k. Q item k) \<and> \<not> parses stod item"
      by (rule item_spec_fault) (use hit [OF item] miss [OF item] in blast)+
  qed
  have vals: "\<forall>item\<in>set lineitem_data. \<forall>r. g item = Inr r \<longrightarrow>
             (\<forall>k. contrib_sum [r] k = (if Q item k then revenue stod item else 0))
             \<and> contrib_names [r] = {k. Q item k}"
  proof (intro ballI allI impI)
    fix item r assume item: "item \<in> set lineitem_data" and r: "g item = Inr r"
    have h: "\<forall>k. Q item k \<longrightarrow> g item = bindE (stod (col item ''l_extendedprice'')) (\<lambda>price.
                       bindE (stod (col item ''l_discount'')) (\<lambda>discount.
                         Inr (Some (k, price * (1 - discount)))))"
      using hit [OF item] by blast
    have m: "(\<forall>k. \<not> Q item k) \<longrightarrow> g item = Inr None" using miss [OF item] by blast
    have o: "\<forall>k k'. Q item k \<and> Q item k' \<longrightarrow> k = k'" using one by blast
    show "(\<forall>k. contrib_sum [r] k = (if Q item k then revenue stod item else 0))
             \<and> contrib_names [r] = {k. Q item k}"
      using item_spec_value [OF h m o r] by blast
  qed
  show "dimension_filter r_name start_date end_date customer_data orders_data supplier_data
           nation_data region_data = Inr (nk, vc, vs, vo)" by (rule flt)
  show "lookups_closed nk vc vs vo" by (rule closed)
  show "(\<exists>e. mapE (item_revenue stod nk vc vs vo) lineitem_data = Inl e) \<longleftrightarrow>
              (\<exists>item\<in>set lineitem_data.
                 (\<exists>k. qualifies r_name start_date end_date customer_data orders_data supplier_data
                        nation_data region_data item k) \<and> \<not> parses stod item)"
    using scan_spec_fault [OF fault] unfolding g_def Q_def .
  show "contrib_sum rs k
                    = (\<Sum>item\<leftarrow>lineitem_data.
                         if qualifies r_name start_date end_date customer_data orders_data
                              supplier_data nation_data region_data item k
                         then revenue stod item else 0)"
    if "mapE (item_revenue stod nk vc vs vo) lineitem_data = Inr rs" for rs k
  proof -
    from that have "mapE g lineitem_data = Inr rs" unfolding g_def .
    from scan_spec_value(1) [OF vals this] show ?thesis unfolding Q_def .
  qed
  show "contrib_names rs
                  = {k. \<exists>item\<in>set lineitem_data.
                          qualifies r_name start_date end_date customer_data orders_data
                            supplier_data nation_data region_data item k}"
    if "mapE (item_revenue stod nk vc vs vo) lineitem_data = Inr rs" for rs
  proof -
    from that have "mapE g lineitem_data = Inr rs" unfolding g_def .
    from scan_spec_value(2) [OF vals this] show ?thesis unfolding Q_def .
  qed
qed


lemma std_map_Nil [simp]: "is_std_map []"
  by (simp add: is_std_map_def)



lemma ex_well_formed:
  "well_formed ex_customers ex_orders ex_lineitems ex_suppliers ex_nations ex_regions"
  by (simp add: well_formed_def has_columns_def ex_customers_def ex_orders_def ex_lineitems_def
      ex_suppliers_def ex_nations_def ex_regions_def)

lemma ex_unique:
  "unique_key ''o_orderkey'' ex_orders" "unique_key ''c_custkey'' ex_customers"
  "unique_key ''s_suppkey'' ex_suppliers" "unique_key ''n_nationkey'' ex_nations"
  by (simp_all add: unique_key_def col_def ex_customers_def ex_orders_def
      ex_suppliers_def ex_nations_def)


section \<open>Faults of the scan\<close>

lemma mapE_Inl: "mapE g xs = Inl e \<Longrightarrow> \<exists>x\<in>set xs. g x = Inl e"
proof (induction xs)
  case Nil
  then show ?case by simp
next
  case (Cons x xs)
  show ?case
  proof (cases "g x")
    case (Inl e')
    then show ?thesis using Cons.prems by simp
  next
    case (Inr y)
    then have "mapE g xs = Inl e" using Cons.prems by (cases "mapE g xs") simp_all
    then show ?thesis using Cons.IH by simp
  qed
qed

lemma item_revenue_fault:
  assumes cols: "item ''l_extendedprice'' \<noteq> None" "item ''l_discount'' \<noteq> None"
    and "item_revenue stod nk vc vs vo item = Inl e"
  shows "stod (col item ''l_extendedprice'') = Inl e \<or> stod (col item ''l_discount'') = Inl e
         \<or> item ''l_orderkey'' = None \<or> item ''l_suppkey'' = None"
proof (cases "item ''l_orderkey'' = None \<or> item ''l_suppkey'' = None")
  case True
  then show ?thesis by blast
next
  case False
  then have k: "item ''l_orderkey'' \<noteq> None" "item ''l_suppkey'' \<noteq> None" by simp_all
  show ?thesis
  proof (cases "stod (col item ''l_extendedprice'')")
    case (Inl e')
    then show ?thesis using assms k
      by (auto simp: item_revenue_def map_at_col split: option.splits if_splits)
  next
    case p: (Inr price)
    show ?thesis
    proof (cases "stod (col item ''l_discount'')")
      case (Inl e')
      then show ?thesis using assms k p
        by (auto simp: item_revenue_def map_at_col split: option.splits if_splits)
    next
      case (Inr discount)
      then show ?thesis using assms k p
        by (auto simp: item_revenue_def map_at_col split: option.splits if_splits)
    qed
  qed
qed

text \<open>
  C5, as the code has it. On tables that carry the columns the query reads and in which
  order, customer, supplier and nation keys are unique, with at least one worker: the run
  ends in a fault, and so without any result map, exactly when the extended price or the
  discount of some line item that qualifies (that passes the join filters) cannot be read
  by \<open>stod\<close>; the fault is then one that \<open>stod\<close> raised on such a field of a line item. A line
  item that fails the join filters is never read as a number.
\<close>

theorem corrupt_row_fault:
  assumes wf: "well_formed customer_data orders_data lineitem_data supplier_data nation_data region_data"
    and uo: "unique_key ''o_orderkey'' orders_data"
    and uc: "unique_key ''c_custkey'' customer_data"
    and us: "unique_key ''s_suppkey'' supplier_data"
    and un: "unique_key ''n_nationkey'' nation_data"
    and N: "1 \<le> num_threads"
    and std: "is_std_map results"
  shows "((\<exists>e. executeQuery5 stod r_name start_date end_date num_threads customer_data
                 orders_data lineitem_data supplier_data nation_data region_data results = Inl e)
          \<longleftrightarrow> (\<exists>item\<in>set lineitem_data.
                 (\<exists>k. qualifies r_name start_date end_date customer_data orders_data supplier_data
                        nation_data region_data item k) \<and> \<not> parses stod item))
       \<and> (\<forall>e. executeQuery5 stod r_name start_date end_date num_threads customer_data
                 orders_data lineitem_data supplier_data nation_data region_data results = Inl e
            \<longrightarrow> (\<exists>item\<in>set lineitem_data.
                   stod (col item ''l_extendedprice'') = Inl e
                   \<or> stod (col item ''l_discount'') = Inl e))"
proof -
  let ?run = "executeQuery5 stod r_name start_date end_date num_threads customer_data
                orders_data lineitem_data supplier_data nation_data region_data results"
  define nk where "nk = nation_name_by_key r_name nation_data region_data"
  define vc where "vc = cust_nation_by_key nk customer_data"
  define vs where "vs = supp_nation_by_key nk supplier_data"
  define vo where "vo = order_cust_by_key start_date end_date vc orders_data"
  note scan_facts = query5_scan [OF wf uo uc us un nk_def vc_def vs_def vo_def]
  note flt = scan_facts(1) and closed = scan_facts(2) and fault = scan_facts(3)
  have run: "?run = bindE (mapE (item_revenue stod nk vc vs vo) lineitem_data)
                      (\<lambda>rs. Inr (True, fold add_contribution rs results))"
    unfolding executeQuery5_split flt bindE_Inr by (rule join_aggregate_scan [OF closed std N])
  have iff: "(\<exists>e. ?run = Inl e) \<longleftrightarrow> (\<exists>e. mapE (item_revenue stod nk vc vs vo) lineitem_data = Inl e)"
    unfolding run by (cases "mapE (item_revenue stod nk vc vs vo) lineitem_data") simp_all
  have li: "has_columns [''l_orderkey'', ''l_suppkey'', ''l_extendedprice'', ''l_discount''] lineitem_data"
    using wf by (simp add: well_formed_def)
  have src: "\<exists>item\<in>set lineitem_data.
                   stod (col item ''l_extendedprice'') = Inl e
                   \<or> stod (col item ''l_discount'') = Inl e" if "?run = Inl e" for e
  proof -
    from that have "mapE (item_revenue stod nk vc vs vo) lineitem_data = Inl e"
      unfolding run by (cases "mapE (item_revenue stod nk vc vs vo) lineitem_data") simp_all
    from mapE_Inl [OF this] obtain item where item: "item \<in> set lineitem_data"
      "item_revenue stod nk vc vs vo item = Inl e" by blast
    have cols: "item ''l_orderkey'' \<noteq> None" "item ''l_suppkey'' \<noteq> None"
      "item ''l_extendedprice'' \<noteq> None" "item ''l_discount'' \<noteq> None"
      using li item(1) by (auto dest: has_columnsD)
    from item_revenue_fault [OF cols(3,4) item(2)] cols(1,2) item(1) show ?thesis by blast
  qed
  show ?thesis
  proof (intro conjI allI impI)
    show "(\<exists>e. ?run = Inl e) \<longleftrightarrow> (\<exists>item\<in>set lineitem_data.
                 (\<exists>k. qualifies r_name start_date end_date customer_data orders_data supplier_data
                        nation_data region_data item k) \<and> \<not> parses stod item)"
      unfolding iff by (rule fault)
  next
    fix e assume "?run = Inl e"
    then show "\<exists>item\<in>set lineitem_data.
                   stod (col item ''l_extendedprice'') = Inl e
                   \<or> stod (col item ''l_discount'') = Inl e" by (rule src)
  qed
qed

lemma ex_fatal_well_formed:
  "well_formed ex_customers ex_orders ex_lineitems_fatal ex_suppliers ex_nations ex_regions"
  by (simp add: well_formed_def has_columns_def ex_customers_def ex_orders_def
      ex_lineitems_fatal_def ex_suppliers_def ex_nations_def ex_regions_def)

text \<open>The line item of nation B qualifies and its discount is not a number: the run faults.\<close>

theorem corrupt_row_fault_witness:
  "well_formed ex_customers ex_orders ex_lineitems_fatal ex_suppliers ex_nations ex_regions
   \<and> unique_key ''o_orderkey'' ex_orders \<and> unique_key ''c_custkey'' ex_customers
   \<and> unique_key ''s_suppkey'' ex_suppliers \<and> unique_key ''n_nationkey'' ex_nations
   \<and> (1::int) \<le> 2 \<and> is_std_map []
   \<and> executeQuery5 stod_decimal ''TEST'' ''1994-01-01'' ''1995-01-01'' 2 ex_customers ex_orders
       ex_lineitems_fatal ex_suppliers ex_nations ex_regions [] = Inl InvalidArgument
   \<and> (\<exists>item\<in>set ex_lineitems_fatal.
         (\<exists>k. qualifies ''TEST'' ''1994-01-01'' ''1995-01-01'' ex_customers ex_orders ex_suppliers
                ex_nations ex_regions item k) \<and> \<not> parses stod_decimal item)"
proof -
  have run: "executeQuery5 stod_decimal ''TEST'' ''1994-01-01'' ''1995-01-01'' 2 ex_customers
               ex_orders ex_lineitems_fatal ex_suppliers ex_nations ex_regions []
             = Inl InvalidArgument"
    by code_simp
  have N: "(1::int) \<le> 2" by simp
  note t = corrupt_row_fault [OF ex_fatal_well_formed ex_unique N std_map_Nil, of stod_decimal
      "''TEST''" "''1994-01-01''" "''1995-01-01''", THEN conjunct1]
  have "\<exists>e. executeQuery5 stod_decimal ''TEST'' ''1994-01-01'' ''1995-01-01'' 2 ex_customers
               ex_orders ex_lineitems_fatal ex_suppliers ex_nations ex_regions [] = Inl e"
    using run by blast
  then have q: "\<exists>item\<in>set ex_lineitems_fatal.
         (\<exists>k. qualifies ''TEST'' ''1994-01-01'' ''1995-01-01'' ex_customers ex_orders ex_suppliers
                ex_nations ex_regions item k) \<and> \<not> parses stod_decimal item"
    unfolding t .
  show ?thesis
    by (intro conjI) (rule ex_fatal_well_formed ex_unique N std_map_Nil run q)+
qed

text \<open>
  The counterexample to C5 as stated: the first line item has a price that is not a number,
  but its order lies outside the date window; the run succeeds and returns the result of
  the other line items.
\<close>

theorem corrupt_row_skipped:
  "stod_decimal (col (ex_lineitems_skipped ! 0) ''l_extendedprice'') = Inl InvalidArgument
   \<and> executeQuery5 stod_decimal ''TEST'' ''1994-01-01'' ''1995-01-01'' 2 ex_customers ex_orders
       ex_lineitems_skipped ex_suppliers ex_nations ex_regions []
     = Inr (True, [(''A'', 50), (''B'', 200), (''C'', 10)])"
proof
  show "stod_decimal (col (ex_lineitems_skipped ! 0) ''l_extendedprice'') = Inl InvalidArgument"
    by (simp add: ex_lineitems_skipped_def col_def stod_ex)
  show "executeQuery5 stod_decimal ''TEST'' ''1994-01-01'' ''1995-01-01'' 2 ex_customers ex_orders
       ex_lineitems_skipped ex_suppliers ex_nations ex_regions []
     = Inr (True, [(''A'', 50), (''B'', 200), (''C'', 10)])"
    by code_simp
qed

section \<open>No matching region\<close>

lemma fold_cond_insert_none:
  "\<forall>r\<in>set rows. \<not> P r \<Longrightarrow> fold (cond_insert P key val) rows m = m"
  by (induction rows arbitrary: m) (simp_all add: cond_insert_def)

lemma no_region_lookups:
  assumes "\<forall>r\<in>set region_data. col r ''r_name'' \<noteq> r_name"
  shows "nation_name_by_key r_name nation_data region_data = Map.empty"
    and "cust_nation_by_key Map.empty customer_data = Map.empty"
    and "supp_nation_by_key Map.empty supplier_data = Map.empty"
    and "order_cust_by_key start_date end_date Map.empty orders_data = Map.empty"
proof -
  have "valid_region_key_list r_name region_data = []"
    using assms by (simp add: valid_region_key_list_def)
  then show "nation_name_by_key r_name nation_data region_data = Map.empty"
    by (simp add: nation_name_by_key_def fold_cond_insert_none)
  show "cust_nation_by_key Map.empty customer_data = Map.empty"
    by (simp add: cust_nation_by_key_def fold_cond_insert_none)
  show "supp_nation_by_key Map.empty supplier_data = Map.empty"
    by (simp add: supp_nation_by_key_def fold_cond_insert_none)
  show "order_cust_by_key start_date end_date Map.empty orders_data = Map.empty"
    by (simp add: order_cust_by_key_def fold_cond_insert_none order_selected_def)
qed

lemma mapE_all_None:
  assumes "\<forall>x\<in>set xs. g x = Inr None"
  shows "mapE g xs = Inr (map (\<lambda>x. None) xs)"
  using assms by (induction xs) simp_all

lemma fold_add_contribution_None: "fold add_contribution (map (\<lambda>x. None) xs) m = m"
  by (induction xs) (simp_all add: add_contribution_def)

lemma revenue_desc_order: "strict_weak_order revenue_desc"
  by (auto simp: strict_weak_order_def revenue_desc_def)

lemma sort_Nil:
  assumes "std_sort_contract srt"
  shows "srt revenue_desc [] = []"
proof -
  have "mset (srt revenue_desc []) = mset []"
    using assms revenue_desc_order unfolding std_sort_contract_def by blast
  then show ?thesis by simp
qed

text \<open>
  C6. For every input on tables that carry the columns the query reads, with at least one
  worker, in which no region's name is exactly equal to the target region name,
  \<^verbatim>\<open>executeQuery5\<close> started on an empty result map returns true with the result map still
  empty, and \<^verbatim>\<open>outputResults\<close> then hands on an empty sequence and writes no line.
\<close>

theorem no_region_empty_result:
  assumes wf: "well_formed customer_data orders_data lineitem_data supplier_data nation_data region_data"
    and N: "1 \<le> num_threads"
    and none: "\<forall>r\<in>set region_data. col r ''r_name'' \<noteq> r_name"
    and srt: "std_sort_contract srt"
  shows "executeQuery5 stod r_name start_date end_date num_threads customer_data orders_data
           lineitem_data supplier_data nation_data region_data [] = Inr (True, [])
       \<and> rk_sorted_results (snd (outputResults srt fmt is_open [])) = []
       \<and> rk_outfile (snd (outputResults srt fmt is_open [])) = []"
proof (intro conjI)
  have flt: "dimension_filter r_name start_date end_date customer_data orders_data supplier_data
               nation_data region_data = Inr (Map.empty, Map.empty, Map.empty, Map.empty)"
    unfolding dimension_filter_pure [OF wf] no_region_lookups [OF none] ..
  have closed: "lookups_closed Map.empty Map.empty Map.empty Map.empty"
    by (simp add: lookups_closed_def)
  have li: "has_columns [''l_orderkey'', ''l_suppkey'', ''l_extendedprice'', ''l_discount''] lineitem_data"
    using wf by (simp add: well_formed_def)
  have "\<forall>item\<in>set lineitem_data.
          item_revenue stod Map.empty Map.empty Map.empty Map.empty item = Inr None"
  proof
    fix item assume "item \<in> set lineitem_data"
    with li have "item ''l_orderkey'' \<noteq> None" "item ''l_suppkey'' \<noteq> None"
      by (auto dest: has_columnsD)
    then show "item_revenue stod Map.empty Map.empty Map.empty Map.empty item = Inr None"
      by (simp add: item_revenue_def map_at_col)
  qed
  then have scan: "mapE (item_revenue stod Map.empty Map.empty Map.empty Map.empty) lineitem_data
                   = Inr (map (\<lambda>x. None) lineitem_data)"
    by (rule mapE_all_None)
  show "executeQuery5 stod r_name start_date end_date num_threads customer_data orders_data
           lineitem_data supplier_data nation_data region_data [] = Inr (True, [])"
    unfolding executeQuery5_split flt bindE_Inr join_aggregate_scan [OF closed std_map_Nil N] scan
    by (simp add: fold_add_contribution_None)
  show "rk_sorted_results (snd (outputResults srt fmt is_open [])) = []"
    by (simp add: outputResults_def Let_def sort_Nil [OF srt])
  show "rk_outfile (snd (outputResults srt fmt is_open [])) = []"
    by (simp add: outputResults_def Let_def sort_Nil [OF srt])
qed


section \<open>Insertion sort meets the contract of std::sort\<close>

lemma mset_insert_by: "mset (insert_by cmp x ys) = add_mset x (mset ys)"
  by (induction ys) simp_all

lemma mset_insertion_sort: "mset (insertion_sort cmp xs) = mset xs"
  by (induction xs) (simp_all add: insertion_sort_def mset_insert_by)

lemma set_insert_by: "set (insert_by cmp x ys) = insert x (set ys)"
  using mset_insert_by [of cmp x ys, THEN arg_cong [where f = set_mset]] by simp

lemma sorted_insert_by:
  assumes swo: "strict_weak_order cmp" and "sorted_wrt (\<lambda>a b. \<not> cmp b a) ys"
  shows "sorted_wrt (\<lambda>a b. \<not> cmp b a) (insert_by cmp x ys)"
  using assms(2)
proof (induction ys)
  case Nil
  show ?case by simp
next
  case (Cons y ys)
  have irrefl: "\<And>a. \<not> cmp a a" and trans: "\<And>a b c. cmp a b \<Longrightarrow> cmp b c \<Longrightarrow> cmp a c"
    using swo unfolding strict_weak_order_def by blast+
  have tail: "sorted_wrt (\<lambda>a b. \<not> cmp b a) ys" and above: "\<forall>z\<in>set ys. \<not> cmp z y"
    using Cons.prems by simp_all
  show ?case
  proof (cases "cmp x y")
    case True
    have "\<not> cmp y x" using True trans irrefl by blast
    moreover have "\<forall>z\<in>set ys. \<not> cmp z x" using True above trans by blast
    ultimately show ?thesis using True Cons.prems by simp
  next
    case False
    have "\<forall>z\<in>set (insert_by cmp x ys). \<not> cmp z y"
      using False above by (simp add: set_insert_by)
    then show ?thesis using False Cons.IH [OF tail] by simp
  qed
qed

lemma sorted_insertion_sort:
  assumes "strict_weak_order cmp"
  shows "sorted_wrt (\<lambda>a b. \<not> cmp b a) (insertion_sort cmp xs)"
proof (induction xs)
  case Nil
  show ?case by (simp add: insertion_sort_def)
next
  case (Cons x xs)
  have "insertion_sort cmp (x # xs) = insert_by cmp x (insertion_sort cmp xs)"
    by (simp add: insertion_sort_def)
  then show ?case using sorted_insert_by [OF assms Cons.IH] by simp
qed

lemma insertion_sort_contract: "std_sort_contract insertion_sort"
  unfolding std_sort_contract_def
  by (intro allI impI conjI) (simp_all add: mset_insertion_sort sorted_insertion_sort)

text \<open>On the worked data set no region is named MARS.\<close>

theorem no_region_empty_result_witness:
  "well_formed ex_customers ex_orders ex_lineitems ex_suppliers ex_nations ex_regions
   \<and> (1::int) \<le> 2
   \<and> filter (\<lambda>r. col r ''r_name'' = ''MARS'') ex_regions = []
   \<and> std_sort_contract insertion_sort
   \<and> executeQuery5 stod_decimal ''MARS'' ''1994-01-01'' ''1995-01-01'' 2 ex_customers ex_orders
        ex_lineitems ex_suppliers ex_nations ex_regions [] = Inr (True, [])
   \<and> rk_sorted_results (snd (outputResults insertion_sort (\<lambda>x. ''0.0000'') True [])) = []"
proof -
  have N: "(1::int) \<le> 2" by simp
  have f: "filter (\<lambda>r. col r ''r_name'' = ''MARS'') ex_regions = []"
    by (simp add: ex_regions_def col_def)
  then have none: "\<forall>r\<in>set ex_regions. col r ''r_name'' \<noteq> ''MARS''"
    by (simp add: filter_empty_conv)
  note t = no_region_empty_result [OF ex_well_formed N none insertion_sort_contract,
      of stod_decimal "''1994-01-01''" "''1995-01-01''" "\<lambda>x. ''0.0000''" True]
  show ?thesis
    using ex_well_formed N f insertion_sort_contract t by (simp only: simp_thms)
qed

section \<open>Ranking\<close>



section \<open>What a run leaves unchanged\<close>

text \<open>
  C9. Executing one query leaves all six input tables as they were (only the result map of
  the caller is written), and \<^verbatim>\<open>outputResults\<close> leaves the result map it is given as it
  was, whatever the sorting routine does: it sorts and writes its own copy.
\<close>

theorem inputs_unchanged:
  "(\<forall>ok st'. executeQuery5_on stod r_name start_date end_date num_threads st = Inr (ok, st') \<longrightarrow>
        q_customer_data st' = q_customer_data st \<and> q_orders_data st' = q_orders_data st
      \<and> q_lineitem_data st' = q_lineitem_data st \<and> q_supplier_data st' = q_supplier_data st
      \<and> q_nation_data st' = q_nation_data st \<and> q_region_data st' = q_region_data st)
   \<and> rk_results (snd (outputResults srt fmt is_open results)) = results"
proof (intro conjI allI impI)
  fix ok st'
  assume "executeQuery5_on stod r_name start_date end_date num_threads st = Inr (ok, st')"
  then obtain r where "st' = st\<lparr>q_results := snd r\<rparr>"
    unfolding executeQuery5_on_def by (auto simp: bindE_eq_Inr)
  then show "q_customer_data st' = q_customer_data st" "q_orders_data st' = q_orders_data st"
    "q_lineitem_data st' = q_lineitem_data st" "q_supplier_data st' = q_supplier_data st"
    "q_nation_data st' = q_nation_data st" "q_region_data st' = q_region_data st"
    by simp_all
next
  show "rk_results (snd (outputResults srt fmt is_open results)) = results"
    by (simp add: outputResults_def Let_def)
qed

text \<open>The worked data set, two workers: the tables come back as they went in.\<close>

theorem inputs_unchanged_witness:
  "executeQuery5_on stod_decimal ''TEST'' ''1994-01-01'' ''1995-01-01'' 2
     \<lparr>q_customer_data = ex_customers, q_orders_data = ex_orders, q_lineitem_data = ex_lineitems,
      q_supplier_data = ex_suppliers, q_nation_data = ex_nations, q_region_data = ex_regions,
      q_results = []\<rparr>
   = Inr (True,
     \<lparr>q_customer_data = ex_customers, q_orders_data = ex_orders, q_lineitem_data = ex_lineitems,
      q_supplier_data = ex_suppliers, q_nation_data = ex_nations, q_region_data = ex_regions,
      q_results = [(''A'', 50), (''B'', 200), (''C'', 10)]\<rparr>)
   \<and> q_lineitem_data
       \<lparr>q_customer_data = ex_customers, q_orders_data = ex_orders, q_lineitem_data = ex_lineitems,
        q_supplier_data = ex_suppliers, q_nation_data = ex_nations, q_region_data = ex_regions,
        q_results = [(''A'', 50), (''B'', 200), (''C'', 10)]\<rparr> = ex_lineitems
   \<and> rk_results (snd (outputResults insertion_sort (\<lambda>x. ''0.0000'') True
        [(''A'', 50), (''B'', 200), (''C'', 10)])) = [(''A'', 50), (''B'', 200), (''C'', 10)]"
proof -
  let ?st = "\<lparr>q_customer_data = ex_customers, q_orders_data = ex_orders,
      q_lineitem_data = ex_lineitems, q_supplier_data = ex_suppliers, q_nation_data = ex_nations,
      q_region_data = ex_regions, q_results = []\<rparr>"
  let ?st' = "\<lparr>q_customer_data = ex_customers, q_orders_data = ex_orders,
      q_lineitem_data = ex_lineitems, q_supplier_data = ex_suppliers, q_nation_data = ex_nations,
      q_region_data = ex_regions, q_results = [(''A'', 50), (''B'', 200), (''C'', 10)]\<rparr>"
  have "executeQuery5 stod_decimal ''TEST'' ''1994-01-01'' ''1995-01-01'' 2 ex_customers
               ex_orders ex_lineitems ex_suppliers ex_nations ex_regions []
             = Inr (True, [(''A'', 50), (''B'', 200), (''C'', 10)])"
    by code_simp
  then have run: "executeQuery5_on stod_decimal ''TEST'' ''1994-01-01'' ''1995-01-01'' 2 ?st
                  = Inr (True, ?st')"
    by (simp add: executeQuery5_on_def)
  note t = inputs_unchanged [of stod_decimal "''TEST''" "''1994-01-01''" "''1995-01-01''" 2 ?st
      insertion_sort "\<lambda>x. ''0.0000''" True "[(''A'', 50), (''B'', 200), (''C'', 10)]"]
  from t run have a: "q_lineitem_data ?st' = q_lineitem_data ?st" by blast
  from t have b: "rk_results (snd (outputResults insertion_sort (\<lambda>x. ''0.0000'') True
        [(''A'', 50), (''B'', 200), (''C'', 10)])) = [(''A'', 50), (''B'', 200), (''C'', 10)]"
    by (rule conjunct2)
  from a have a': "q_lineitem_data ?st' = ex_lineitems" by simp
  show ?thesis by (intro conjI) (rule run a' b)+
qed

section \<open>The unguarded lookups\<close>

text \<open>
  C8. For the lookup tables that steps 1 to 5 build: every customer key stored in
  \<^verbatim>\<open>valid_orders\<close> is a key of \<^verbatim>\<open>valid_customers\<close>, and every nation key stored in
  \<^verbatim>\<open>valid_suppliers\<close> is a key of \<^verbatim>\<open>nation_key_to_name\<close>, so the two unguarded accesses
  \<^verbatim>\<open>valid_customers[c_key]\<close> and \<^verbatim>\<open>nation_key_to_name[s_nation]\<close> read a stored value and
  insert nothing. Processing a line item, and the run of all workers, leave both tables
  exactly as they were built.
\<close>

theorem lookups_never_miss:
  assumes "dimension_filter r_name start_date end_date customer_data orders_data supplier_data
             nation_data region_data = Inr (nk, vc, vs, vo)"
  shows "(\<forall>o_key c_key. vo o_key = Some c_key \<longrightarrow>
            (\<exists>c_nation. vc c_key = Some c_nation \<and> map_index vc c_key = (c_nation, vc)))
       \<and> (\<forall>s_key s_nation. vs s_key = Some s_nation \<longrightarrow>
            (\<exists>n_name. nk s_nation = Some n_name \<and> map_index nk s_nation = (n_name, nk)))
       \<and> (\<forall>stod thread_id item st st'.
            w_valid_customers st = vc \<and> w_nation_key_to_name st = nk
            \<and> thread_id < length (w_thread_results st)
            \<and> process_item stod vo vs thread_id item st = Inr st'
            \<longrightarrow> w_valid_customers st' = vc \<and> w_nation_key_to_name st' = nk)
       \<and> (\<forall>stod lineitem_data N st'.
            run_threads stod vo vs lineitem_data N
              \<lparr>w_valid_customers = vc, w_nation_key_to_name = nk,
               w_thread_results = replicate N []\<rparr> = Inr st'
            \<longrightarrow> w_valid_customers st' = vc \<and> w_nation_key_to_name st' = nk)"
proof (intro conjI allI impI)
  have closed: "lookups_closed nk vc vs vo" using assms by (rule dimension_filter_closed)
  {
    fix o_key c_key assume "vo o_key = Some c_key"
    then have "vc c_key \<noteq> None" using closed by (simp add: lookups_closed_def)
    then show "\<exists>c_nation. vc c_key = Some c_nation \<and> map_index vc c_key = (c_nation, vc)"
      by (auto simp: map_index_def)
  next
    fix s_key s_nation assume "vs s_key = Some s_nation"
    then have "nk s_nation \<noteq> None" using closed by (simp add: lookups_closed_def)
    then show "\<exists>n_name. nk s_nation = Some n_name \<and> map_index nk s_nation = (n_name, nk)"
      by (auto simp: map_index_def)
  next
    fix stod thread_id item st st'
    assume a: "w_valid_customers st = vc \<and> w_nation_key_to_name st = nk
            \<and> thread_id < length (w_thread_results st)
            \<and> process_item stod vo vs thread_id item st = Inr st'"
    then have st: "w_valid_customers st = vc" "w_nation_key_to_name st = nk"
      and tid: "thread_id < length (w_thread_results st)"
      and run: "process_item stod vo vs thread_id item st = Inr st'" by simp_all
    from run obtain r where "st' = st\<lparr>w_thread_results := (w_thread_results st)
                      [thread_id := add_contribution r (w_thread_results st ! thread_id)]\<rparr>"
      unfolding process_item_eq [OF closed st tid] by (auto simp: bindE_eq_Inr)
    then show "w_valid_customers st' = vc" "w_nation_key_to_name st' = nk" using st by simp_all
  next
    fix stod lineitem_data N st'
    assume run: "run_threads stod vo vs lineitem_data N
              \<lparr>w_valid_customers = vc, w_nation_key_to_name = nk,
               w_thread_results = replicate N []\<rparr> = Inr st'"
    have "w_valid_customers st' = vc \<and> w_nation_key_to_name st' = nk"
    proof (cases "1 \<le> N")
      case False
      then have "N = 0" by simp
      then show ?thesis using run by (auto simp: run_threads_def)
    next
      case True
      note scan = run_threads_scan [OF closed True, of stod lineitem_data]
      show ?thesis
      proof (cases "mapE (item_revenue stod nk vc vs vo) lineitem_data")
        case (Inl e)
        then show ?thesis using scan run by simp
      next
        case (Inr rs)
        with scan run have "adds rs \<lparr>w_valid_customers = vc, w_nation_key_to_name = nk,
                               w_thread_results = replicate N []\<rparr> st'" by auto
        then show ?thesis by (simp add: adds_def)
      qed
    qed
    then show "w_valid_customers st' = vc" "w_nation_key_to_name st' = nk" by simp_all
  }
qed

text \<open>
  On the worked data set: order 102 stores customer 12, and the access
  \<^verbatim>\<open>valid_customers["12"]\<close> reads nation 2 and leaves the table as it is.
\<close>

theorem lookups_never_miss_witness:
  "dimension_filter ''TEST'' ''1994-01-01'' ''1995-01-01'' ex_customers ex_orders ex_suppliers
     ex_nations ex_regions
   = Inr ([''1'' \<mapsto> ''A'', ''2'' \<mapsto> ''B'', ''3'' \<mapsto> ''C''],
          [''11'' \<mapsto> ''1'', ''12'' \<mapsto> ''2'', ''13'' \<mapsto> ''3''],
          [''21'' \<mapsto> ''1'', ''22'' \<mapsto> ''2'', ''23'' \<mapsto> ''3''],
          [''101'' \<mapsto> ''11'', ''102'' \<mapsto> ''12'', ''103'' \<mapsto> ''13''])
   \<and> (\<exists>c_nation. [''11'' \<mapsto> ''1'', ''12'' \<mapsto> ''2'', ''13'' \<mapsto> ''3''] ''12'' = Some c_nation
        \<and> map_index [''11'' \<mapsto> ''1'', ''12'' \<mapsto> ''2'', ''13'' \<mapsto> ''3''] ''12''
            = (c_nation, [''11'' \<mapsto> ''1'', ''12'' \<mapsto> ''2'', ''13'' \<mapsto> ''3'']))"
proof -
  note t = lookups_never_miss [OF ex_filter, THEN conjunct1, rule_format, of "''102''" "''12''"]
  have "[''101'' \<mapsto> ''11'', ''102'' \<mapsto> ''12'', ''103'' \<mapsto> ''13''] ''102'' = Some ''12''"
    by simp
  from t [OF this] ex_filter show ?thesis by (intro conjI)
qed

section \<open>Configuration\<close>

lemma parse_loop_keeps:
  "parse_loop stoi args cfg = Inr cfg' \<Longrightarrow>
     (''--r_name'' \<notin> set args \<longrightarrow> cfg_r_name cfg' = cfg_r_name cfg)
   \<and> (''--start_date'' \<notin> set args \<longrightarrow> cfg_start_date cfg' = cfg_start_date cfg)
   \<and> (''--end_date'' \<notin> set args \<longrightarrow> cfg_end_date cfg' = cfg_end_date cfg)
   \<and> (''--threads'' \<notin> set args \<longrightarrow> cfg_num_threads cfg' = cfg_num_threads cfg)
   \<and> (''--table_path'' \<notin> set args \<longrightarrow> cfg_table_path cfg' = cfg_table_path cfg)
   \<and> (''--result_path'' \<notin> set args \<longrightarrow> cfg_result_path cfg' = cfg_result_path cfg)"
proof (induction stoi args cfg rule: parse_loop.induct)
  case (1 stoi cfg)
  then show ?case by simp
next
  case (2 stoi arg cfg)
  then show ?case by simp
next
  case (3 stoi arg v rest cfg)
  consider (rn) "arg = ''--r_name''" | (sd) "arg = ''--start_date''" | (ed) "arg = ''--end_date''"
    | (th) "arg = ''--threads''" | (tp) "arg = ''--table_path''" | (rp) "arg = ''--result_path''"
    | (other) "arg \<noteq> ''--r_name''" "arg \<noteq> ''--start_date''" "arg \<noteq> ''--end_date''"
        "arg \<noteq> ''--threads''" "arg \<noteq> ''--table_path''" "arg \<noteq> ''--result_path''"
    by blast
  then show ?case
  proof cases
    case rn
    then have "parse_loop stoi rest (cfg\<lparr>cfg_r_name := v\<rparr>) = Inr cfg'" using "3.prems" by simp
    from "3.IH"(1) [OF rn this] rn show ?thesis by simp
  next
    case sd
    then have "parse_loop stoi rest (cfg\<lparr>cfg_start_date := v\<rparr>) = Inr cfg'" using "3.prems" by simp
    from "3.IH"(2) [OF _ sd this] sd show ?thesis by simp
  next
    case ed
    then have "parse_loop stoi rest (cfg\<lparr>cfg_end_date := v\<rparr>) = Inr cfg'" using "3.prems" by simp
    from "3.IH"(3) [OF _ _ ed this] ed show ?thesis by simp
  next
    case th
    then obtain n where n: "stoi v = Inr n"
      "parse_loop stoi rest (cfg\<lparr>cfg_num_threads := n\<rparr>) = Inr cfg'"
      using "3.prems" by (auto simp: bindE_eq_Inr)
    from "3.IH"(4) [OF _ _ _ th n(2)] th show ?thesis by simp
  next
    case tp
    then have "parse_loop stoi rest (cfg\<lparr>cfg_table_path := v\<rparr>) = Inr cfg'" using "3.prems" by simp
    from "3.IH"(5) [OF _ _ _ _ tp this] tp show ?thesis by simp
  next
    case rp
    then have "parse_loop stoi rest (cfg\<lparr>cfg_result_path := v\<rparr>) = Inr cfg'" using "3.prems" by simp
    from "3.IH"(6) [OF _ _ _ _ _ rp this] rp show ?thesis by simp
  next
    case other
    then have "parse_loop stoi (v # rest) cfg = Inr cfg'" using "3.prems" by simp
    from "3.IH"(7) [OF other this] other show ?thesis by simp
  qed
qed


lemma parse_loop_fault:
  "parse_loop stoi args cfg = Inl e \<Longrightarrow>
     ''--threads'' \<in> set args \<and> (\<exists>v\<in>set args. stoi v = Inl e)"
proof (induction stoi args cfg rule: parse_loop.induct)
  case (1 stoi cfg)
  then show ?case by simp
next
  case (2 stoi arg cfg)
  then show ?case by simp
next
  case (3 stoi arg v rest cfg)
  consider (rn) "arg = ''--r_name''" | (sd) "arg = ''--start_date''" | (ed) "arg = ''--end_date''"
    | (th) "arg = ''--threads''" | (tp) "arg = ''--table_path''" | (rp) "arg = ''--result_path''"
    | (other) "arg \<noteq> ''--r_name''" "arg \<noteq> ''--start_date''" "arg \<noteq> ''--end_date''"
        "arg \<noteq> ''--threads''" "arg \<noteq> ''--table_path''" "arg \<noteq> ''--result_path''"
    by blast
  then show ?case
  proof cases
    case rn
    then have "parse_loop stoi rest (cfg\<lparr>cfg_r_name := v\<rparr>) = Inl e" using "3.prems" by simp
    from "3.IH"(1) [OF rn this] show ?thesis by auto
  next
    case sd
    then have "parse_loop stoi rest (cfg\<lparr>cfg_start_date := v\<rparr>) = Inl e" using "3.prems" by simp
    from "3.IH"(2) [OF _ sd this] sd show ?thesis by auto
  next
    case ed
    then have "parse_loop stoi rest (cfg\<lparr>cfg_end_date := v\<rparr>) = Inl e" using "3.prems" by simp
    from "3.IH"(3) [OF _ _ ed this] ed show ?thesis by auto
  next
    case th
    show ?thesis
    proof (cases "stoi v")
      case (Inl e')
      then have "e' = e" using "3.prems" th by simp
      then show ?thesis using Inl th by auto
    next
      case (Inr n)
      then have "parse_loop stoi rest (cfg\<lparr>cfg_num_threads := n\<rparr>) = Inl e"
        using "3.prems" th by simp
      from "3.IH"(4) [OF _ _ _ th this] th show ?thesis by auto
    qed
  next
    case tp
    then have "parse_loop stoi rest (cfg\<lparr>cfg_table_path := v\<rparr>) = Inl e" using "3.prems" by simp
    from "3.IH"(5) [OF _ _ _ _ tp this] tp show ?thesis by auto
  next
    case rp
    then have "parse_loop stoi rest (cfg\<lparr>cfg_result_path := v\<rparr>) = Inl e" using "3.prems" by simp
    from "3.IH"(6) [OF _ _ _ _ _ rp this] rp show ?thesis by auto
  next
    case other
    then have "parse_loop stoi (v # rest) cfg = Inl e" using "3.prems" by simp
    from "3.IH"(7) [OF other this] show ?thesis by auto
  qed
qed

lemma parseArgs_True:
  assumes "parseArgs stoi argv cfg = Inr (True, cfg')"
  shows "parse_loop stoi (drop 1 argv) cfg = Inr cfg'" and "\<not> incomplete cfg'"
proof -
  from assms obtain c where c: "parse_loop stoi (drop 1 argv) cfg = Inr c"
    "(if incomplete c then Inr (False, c) else Inr (True, c)) = (Inr (True, cfg') :: error + bool \<times> config)"
    unfolding parseArgs_def by (auto simp: bindE_eq_Inr)
  from c(2) have "\<not> incomplete c \<and> c = cfg'" by (cases "incomplete c") simp_all
  then have n: "\<not> incomplete cfg'" and e: "c = cfg'" by blast+
  show "parse_loop stoi (drop 1 argv) cfg = Inr cfg'" using c(1) e by simp
  show "\<not> incomplete cfg'" by (rule n)
qed

text \<open>
  C10, as the code has it. Whenever the scan of the arguments leaves the target region
  name, the start date, the end date, the table path or the result path empty, or the
  worker count non-positive, \<^verbatim>\<open>parseArgs\<close> returns false; so it does in particular when such
  a value is empty (non-positive) on entry and its flag does not occur, unless an exception
  ends the scan; it never returns true with such a value. The scan does not return only
  when \<open>stoi\<close> throws on an argument, which takes a \<^verbatim>\<open>--threads\<close> flag among the
  arguments; the exception then leaves \<^verbatim>\<open>parseArgs\<close>.
\<close>

theorem parseArgs_rejects:
  "(\<forall>cfg'. parse_loop stoi (drop 1 argv) cfg = Inr cfg' \<and> incomplete cfg'
        \<longrightarrow> parseArgs stoi argv cfg = Inr (False, cfg'))
   \<and> (\<forall>cfg'. parseArgs stoi argv cfg = Inr (True, cfg') \<longrightarrow> \<not> incomplete cfg')
   \<and> ((cfg_r_name cfg = [] \<and> ''--r_name'' \<notin> set (drop 1 argv))
        \<or> (cfg_start_date cfg = [] \<and> ''--start_date'' \<notin> set (drop 1 argv))
        \<or> (cfg_end_date cfg = [] \<and> ''--end_date'' \<notin> set (drop 1 argv))
        \<or> (cfg_table_path cfg = [] \<and> ''--table_path'' \<notin> set (drop 1 argv))
        \<or> (cfg_result_path cfg = [] \<and> ''--result_path'' \<notin> set (drop 1 argv))
        \<or> (cfg_num_threads cfg \<le> 0 \<and> ''--threads'' \<notin> set (drop 1 argv))
      \<longrightarrow> (\<forall>cfg'. parseArgs stoi argv cfg \<noteq> Inr (True, cfg')))
   \<and> (\<forall>e. parseArgs stoi argv cfg = Inl e
        \<longrightarrow> ''--threads'' \<in> set (drop 1 argv) \<and> (\<exists>v\<in>set (drop 1 argv). stoi v = Inl e))"
proof (intro conjI allI impI)
  fix cfg' assume "parse_loop stoi (drop 1 argv) cfg = Inr cfg' \<and> incomplete cfg'"
  then show "parseArgs stoi argv cfg = Inr (False, cfg')" by (simp add: parseArgs_def)
next
  fix cfg' assume "parseArgs stoi argv cfg = Inr (True, cfg')"
  then show "\<not> incomplete cfg'" by (rule parseArgs_True)
next
  fix cfg'
  assume missing: "(cfg_r_name cfg = [] \<and> ''--r_name'' \<notin> set (drop 1 argv))
        \<or> (cfg_start_date cfg = [] \<and> ''--start_date'' \<notin> set (drop 1 argv))
        \<or> (cfg_end_date cfg = [] \<and> ''--end_date'' \<notin> set (drop 1 argv))
        \<or> (cfg_table_path cfg = [] \<and> ''--table_path'' \<notin> set (drop 1 argv))
        \<or> (cfg_result_path cfg = [] \<and> ''--result_path'' \<notin> set (drop 1 argv))
        \<or> (cfg_num_threads cfg \<le> 0 \<and> ''--threads'' \<notin> set (drop 1 argv))"
  show "parseArgs stoi argv cfg \<noteq> Inr (True, cfg')"
  proof
    assume t: "parseArgs stoi argv cfg = Inr (True, cfg')"
    note keeps = parse_loop_keeps [OF parseArgs_True(1) [OF t]]
    from missing keeps have "incomplete cfg'" unfolding incomplete_def by metis
    with parseArgs_True(2) [OF t] show False by simp
  qed
next
  fix e assume "parseArgs stoi argv cfg = Inl e"
  then have "parse_loop stoi (drop 1 argv) cfg = Inl e"
    unfolding parseArgs_def by (cases "parse_loop stoi (drop 1 argv) cfg") (simp_all split: if_splits)
  from parse_loop_fault [OF this]
  show "''--threads'' \<in> set (drop 1 argv)" and "\<exists>v\<in>set (drop 1 argv). stoi v = Inl e"
    by simp_all
qed

lemma stoi_ex: "stoi_decimal ''0'' = Inr 0" "stoi_decimal ''abc'' = Inl InvalidArgument"
  "stoi_decimal ''8'' = Inr 8" "stoi_decimal '' -12x'' = Inr (- 12)"
  by (simp_all add: stoi_decimal_def is_space_def is_digit_def digits_value_def Let_def)

text \<open>All six values are given, the worker count as 0: \<^verbatim>\<open>parseArgs\<close> returns false.\<close>

theorem parseArgs_rejects_witness:
  "parse_loop stoi_decimal
     (drop 1 [''query5'', ''--r_name'', ''ASIA'', ''--start_date'', ''1994-01-01'', ''--end_date'',
              ''1995-01-01'', ''--threads'', ''0'', ''--table_path'', ''data'', ''--result_path'',
              ''out.txt''])
     \<lparr>cfg_r_name = [], cfg_start_date = [], cfg_end_date = [], cfg_num_threads = 1,
      cfg_table_path = [], cfg_result_path = []\<rparr>
   = Inr \<lparr>cfg_r_name = ''ASIA'', cfg_start_date = ''1994-01-01'', cfg_end_date = ''1995-01-01'',
          cfg_num_threads = 0, cfg_table_path = ''data'', cfg_result_path = ''out.txt''\<rparr>
   \<and> incomplete \<lparr>cfg_r_name = ''ASIA'', cfg_start_date = ''1994-01-01'',
          cfg_end_date = ''1995-01-01'', cfg_num_threads = 0, cfg_table_path = ''data'',
          cfg_result_path = ''out.txt''\<rparr>
   \<and> parseArgs stoi_decimal
       [''query5'', ''--r_name'', ''ASIA'', ''--start_date'', ''1994-01-01'', ''--end_date'',
        ''1995-01-01'', ''--threads'', ''0'', ''--table_path'', ''data'', ''--result_path'',
        ''out.txt'']
       \<lparr>cfg_r_name = [], cfg_start_date = [], cfg_end_date = [], cfg_num_threads = 1,
        cfg_table_path = [], cfg_result_path = []\<rparr>
     = Inr (False, \<lparr>cfg_r_name = ''ASIA'', cfg_start_date = ''1994-01-01'',
          cfg_end_date = ''1995-01-01'', cfg_num_threads = 0, cfg_table_path = ''data'',
          cfg_result_path = ''out.txt''\<rparr>)"
proof -
  let ?argv = "[''query5'', ''--r_name'', ''ASIA'', ''--start_date'', ''1994-01-01'', ''--end_date'',
              ''1995-01-01'', ''--threads'', ''0'', ''--table_path'', ''data'', ''--result_path'',
              ''out.txt'']"
  let ?cfg = "\<lparr>cfg_r_name = [], cfg_start_date = [], cfg_end_date = [], cfg_num_threads = 1,
      cfg_table_path = [], cfg_result_path = []\<rparr>"
  let ?cfg' = "\<lparr>cfg_r_name = ''ASIA'', cfg_start_date = ''1994-01-01'',
          cfg_end_date = ''1995-01-01'', cfg_num_threads = 0, cfg_table_path = ''data'',
          cfg_result_path = ''out.txt''\<rparr>"
  have scan: "parse_loop stoi_decimal (drop 1 ?argv) ?cfg = Inr ?cfg'"
    by (simp add: stoi_ex)
  have inc: "incomplete ?cfg'" by (simp add: incomplete_def)
  from parseArgs_rejects [of stoi_decimal ?argv ?cfg, THEN conjunct1, rule_format, of ?cfg'] scan inc
  have "parseArgs stoi_decimal ?argv ?cfg = Inr (False, ?cfg')" by blast
  with scan inc show ?thesis by (intro conjI)
qed

text \<open>
  The counterexample to C10 as stated: no region name, dates or paths are given and all are
  empty on entry, but the value of \<^verbatim>\<open>--threads\<close> is not a number: \<^verbatim>\<open>parseArgs\<close> does not
  return false, the exception of \<^verbatim>\<open>std::stoi\<close> leaves it.
\<close>

theorem parseArgs_throws:
  "cfg_r_name \<lparr>cfg_r_name = [], cfg_start_date = [], cfg_end_date = [], cfg_num_threads = 0,
      cfg_table_path = [], cfg_result_path = []\<rparr> = []
   \<and> ''--r_name'' \<notin> set [''query5'', ''--threads'', ''abc'']
   \<and> parseArgs stoi_decimal [''query5'', ''--threads'', ''abc'']
       \<lparr>cfg_r_name = [], cfg_start_date = [], cfg_end_date = [], cfg_num_threads = 0,
        cfg_table_path = [], cfg_result_path = []\<rparr> = Inl InvalidArgument"
  by (simp add: parseArgs_def stoi_ex)

end
